theory Spec2Isabelle
  imports Main "HOL-Library.Multiset" "HOL-Library.AList"
begin

section \<open>Addresses, IP ranges and CIDR blocks\<close>

text \<open>
  An address (Go \<open>net.IP\<close>) is modelled by its integer value inside one address family;
  the family enters only through its bit length \<open>bits\<close> (32 where \<open>ip.To4()\<close> is not nil,
  128 otherwise). A nil \<open>net.IP\<close> is \<open>None\<close> where the source tests for it.
\<close>

text \<open>
  Modelled from the spec: \<open>utils.Cmp\<close>, \<open>utils.PrevIP\<close> and \<open>utils.NextIP\<close> belong to
  package \<open>pkg/utils\<close>, whose address file is not among the sources. The spec speaks of the
  address ordering and of the address adjacent to a boundary: \<open>Cmp\<close> is the three-way
  comparison of the address values, \<open>PrevIP\<close> and \<open>NextIP\<close> are the neighbours.
\<close>

definition Cmp :: "int \<Rightarrow> int \<Rightarrow> int" where
  "Cmp a b = (if a < b then - 1 else if a = b then 0 else 1)"

definition PrevIP :: "int \<Rightarrow> int" where
  "PrevIP a = a - 1"

definition NextIP :: "int \<Rightarrow> int" where
  "NextIP a = a + 1"

record IPRange =
  start :: int
  endip :: int

datatype error =
    NilStartOrEnd
  | OutOfCidr IPRange
  | Overlapped IPRange IPRange
  | CreateRangeFailed error
  | NilRangeDereference

text \<open>\<open>CreateIPRange\<close>: an error for a nil endpoint, no object and no error for \<open>start > end\<close>.\<close>

definition CreateIPRange :: "int option \<Rightarrow> int option \<Rightarrow> error + IPRange option" where
  "CreateIPRange s e =
     (case s of
        None \<Rightarrow> Inl NilStartOrEnd
      | Some a \<Rightarrow>
          (case e of
             None \<Rightarrow> Inl NilStartOrEnd
           | Some b \<Rightarrow>
               if Cmp a b > 0 then Inr None
               else Inr (Some \<lparr>start = a, endip = b\<rparr>)))"

text \<open>
  \<open>TryAddIP\<close> returns the success flag and the range as the method leaves it. A nil
  \<open>ipAddr\<close> equals no address (\<open>net.IP.Equal\<close>) and lies in no interval of addresses, so
  it is rejected.
\<close>

definition TryAddIP :: "IPRange \<Rightarrow> int option \<Rightarrow> bool \<times> IPRange" where
  "TryAddIP ir ipAddr =
     (case ipAddr of
        None \<Rightarrow> (False, ir)
      | Some a \<Rightarrow>
          if a = PrevIP (start ir) then (True, ir\<lparr>start := a\<rparr>)
          else if a = NextIP (endip ir) then (True, ir\<lparr>endip := a\<rparr>)
          else if Cmp a (start ir) \<ge> 0 \<and> Cmp a (endip ir) \<le> 0 then (True, ir)
          else (False, ir))"

text \<open>
  A CIDR block (Go \<open>net.IPNet\<close>) is its address and the number of leading ones of its
  mask, \<open>net.CIDRMask(ones, bits)\<close>. \<open>maskIP\<close> is \<open>ip.Mask(net.CIDRMask(ones, bits))\<close>: the
  low \<open>bits - ones\<close> bits are cleared.
\<close>

record IPNet =
  netIP :: int
  netOnes :: nat

definition maskIP :: "nat \<Rightarrow> nat \<Rightarrow> int \<Rightarrow> int" where
  "maskIP ones bits a = a - a mod 2 ^ (bits - ones)"

text \<open>\<open>LastIP\<close>: the last address of the prefix (the cursor of \<open>mikioh/ipaddr\<close>).\<close>

definition LastIP :: "nat \<Rightarrow> IPNet \<Rightarrow> int" where
  "LastIP bits n = maskIP (netOnes n) bits (netIP n) + 2 ^ (bits - netOnes n) - 1"

text \<open>\<open>net.IPNet.Contains\<close>: the address and the block's address agree under the mask.\<close>

definition Contains :: "nat \<Rightarrow> IPNet \<Rightarrow> int \<Rightarrow> bool" where
  "Contains bits n a = (maskIP (netOnes n) bits a = maskIP (netOnes n) bits (netIP n))"

text \<open>
  \<open>calculateIPLastZeroBits\<close>: the loop counts \<open>zeroBits\<close> up from 0 until masking with
  that many leading ones leaves the address unchanged.
\<close>

function zeroBitsLoop :: "nat \<Rightarrow> int \<Rightarrow> nat \<Rightarrow> nat" where
  "zeroBitsLoop bits a zeroBits =
     (if maskIP zeroBits bits a \<noteq> a then zeroBitsLoop bits a (Suc zeroBits) else zeroBits)"
  by pat_completeness auto
termination
proof (relation "measure (\<lambda>(bits, a, z). bits - z)")
  show "wf (measure (\<lambda>(bits, a, z). bits - z))" by simp
next
  fix bits :: nat and a :: int and zeroBits :: nat
  assume "maskIP zeroBits bits a \<noteq> a"
  then have "zeroBits < bits"
    by (cases "zeroBits < bits") (simp_all add: maskIP_def)
  then show "((bits, a, Suc zeroBits), (bits, a, zeroBits)) \<in> measure (\<lambda>(bits, a, z). bits - z)"
    by simp
qed

declare zeroBitsLoop.simps [simp del]

definition calculateIPLastZeroBits :: "nat \<Rightarrow> int \<Rightarrow> nat" where
  "calculateIPLastZeroBits bits a = bits - zeroBitsLoop bits a 0"

text \<open>
  \<open>findTheFirstLargestCidr\<close>: the loop lengthens the prefix while the candidate block
  still contains \<open>end\<close> without ending on it. The second component is the next start
  address, \<open>None\<close> for Go's nil.
\<close>

function cidrLoop :: "nat \<Rightarrow> int \<Rightarrow> int \<Rightarrow> nat \<Rightarrow> IPNet \<times> int option" where
  "cidrLoop bits s e maxValidCidrPrefixLen =
     (if LastIP bits \<lparr>netIP = s, netOnes = maxValidCidrPrefixLen\<rparr> = e
      then (\<lparr>netIP = s, netOnes = maxValidCidrPrefixLen\<rparr>, None)
      else if Contains bits \<lparr>netIP = s, netOnes = maxValidCidrPrefixLen\<rparr> e
      then cidrLoop bits s e (Suc maxValidCidrPrefixLen)
      else (\<lparr>netIP = s, netOnes = maxValidCidrPrefixLen\<rparr>,
            Some (NextIP (LastIP bits \<lparr>netIP = s, netOnes = maxValidCidrPrefixLen\<rparr>))))"
  by pat_completeness auto
termination
proof (relation "measure (\<lambda>(bits, s, e, p). bits - p)")
  show "wf (measure (\<lambda>(bits, s, e, p). bits - p))" by simp
next
  fix bits :: nat and s e :: int and p :: nat
  assume a: "LastIP bits \<lparr>netIP = s, netOnes = p\<rparr> \<noteq> e"
    and b: "Contains bits \<lparr>netIP = s, netOnes = p\<rparr> e"
  have "p < bits"
  proof (rule ccontr)
    assume "\<not> p < bits"
    then have "bits - p = 0" by simp
    with a b show False by (simp add: LastIP_def Contains_def maskIP_def)
  qed
  then show "((bits, s, e, Suc p), (bits, s, e, p)) \<in> measure (\<lambda>(bits, s, e, p). bits - p)"
    by simp
qed

declare cidrLoop.simps [simp del]

definition findTheFirstLargestCidr :: "nat \<Rightarrow> int \<Rightarrow> int \<Rightarrow> IPNet \<times> int option" where
  "findTheFirstLargestCidr bits s e = cidrLoop bits s e (bits - calculateIPLastZeroBits bits s)"

text \<open>
  \<open>splitIPRangeToIPBlocks\<close>: the loop runs while the next start address is not nil. It
  need not end (a range with \<open>start > end\<close> never meets \<open>end\<close>), so not returning is the
  value \<open>None\<close>.
\<close>

partial_function (option) splitLoop ::
  "nat \<Rightarrow> int option \<Rightarrow> int \<Rightarrow> IPNet list \<Rightarrow> IPNet list option" where
  "splitLoop bits nextRangeStart rangeEnd ipBlocks =
     (case nextRangeStart of
        None \<Rightarrow> Some ipBlocks
      | Some s \<Rightarrow>
          splitLoop bits (snd (findTheFirstLargestCidr bits s rangeEnd)) rangeEnd
            (ipBlocks @ [fst (findTheFirstLargestCidr bits s rangeEnd)]))"

declare splitLoop.simps [code]

definition splitIPRangeToIPBlocks :: "nat \<Rightarrow> IPRange \<Rightarrow> IPNet list option" where
  "splitIPRangeToIPBlocks bits ir = splitLoop bits (Some (start ir)) (endip ir) []"

text \<open>
  \<open>FindSubnetExcludeIPBlocks\<close>, first loop: over the included ranges sorted by start,
  with the index of the current range (\<open>rest\<close> is what follows it, so the current range is
  the last one exactly when \<open>rest\<close> is empty).
\<close>

fun excludeRangesLoop ::
  "int \<Rightarrow> int \<Rightarrow> nat \<Rightarrow> IPRange list \<Rightarrow> IPRange list \<Rightarrow> error + IPRange list" where
  "excludeRangesLoop cidrStart cidrEnd idx [] excludeIPRanges = Inr excludeIPRanges"
| "excludeRangesLoop cidrStart cidrEnd idx (cur # rest) excludeIPRanges =
     (if Cmp (start cur) cidrStart < 0 \<or> Cmp (endip cur) cidrEnd > 0 then Inl (OutOfCidr cur)
      else if rest \<noteq> [] \<and> Cmp (endip cur) (start (hd rest)) \<ge> 0
      then Inl (Overlapped cur (hd rest))
      else
        (case (if idx = 0 then CreateIPRange (Some cidrStart) (Some (PrevIP (start cur)))
               else Inr None) of
           Inl err \<Rightarrow> Inl (CreateRangeFailed err)
         | Inr gapBefore \<Rightarrow>
             (case CreateIPRange (Some (NextIP (endip cur)))
                     (Some (if rest = [] then cidrEnd else PrevIP (start (hd rest)))) of
                Inl err \<Rightarrow> Inl (CreateRangeFailed err)
              | Inr gapAfter \<Rightarrow>
                  excludeRangesLoop cidrStart cidrEnd (Suc idx) rest
                    (excludeIPRanges @ (case gapBefore of None \<Rightarrow> [] | Some r \<Rightarrow> [r])
                       @ (case gapAfter of None \<Rightarrow> [] | Some r \<Rightarrow> [r])))))"

text \<open>
  Second loop (\<open>Loop2\<close>). The inner loop offers the address to each exclusion range in
  turn; \<open>TryAddIP\<close> changes the range it succeeds on in place. \<open>None\<close> means that no range
  took the address.
\<close>

fun tryAddToRanges :: "IPRange list \<Rightarrow> int option \<Rightarrow> IPRange list option" where
  "tryAddToRanges [] ipAddr = None"
| "tryAddToRanges (ipRange # rest) ipAddr =
     (if fst (TryAddIP ipRange ipAddr) then Some (snd (TryAddIP ipRange ipAddr) # rest)
      else map_option ((#) ipRange) (tryAddToRanges rest ipAddr))"

fun addExcludedIPs :: "IPRange list \<Rightarrow> int option list \<Rightarrow> error + IPRange list" where
  "addExcludedIPs excludeIPRanges [] = Inr excludeIPRanges"
| "addExcludedIPs excludeIPRanges (ipAddr # rest) =
     (case tryAddToRanges excludeIPRanges ipAddr of
        Some ranges \<Rightarrow> addExcludedIPs ranges rest
      | None \<Rightarrow>
          (case CreateIPRange ipAddr ipAddr of
             Inl err \<Rightarrow> Inl (CreateRangeFailed err)
           | Inr None \<Rightarrow> Inl NilRangeDereference
           | Inr (Some singleIPRange) \<Rightarrow>
               addExcludedIPs (excludeIPRanges @ [singleIPRange]) rest))"

fun splitAll :: "nat \<Rightarrow> IPRange list \<Rightarrow> IPNet list option" where
  "splitAll bits [] = Some []"
| "splitAll bits (ipRange # rest) =
     (case splitIPRangeToIPBlocks bits ipRange of
        None \<Rightarrow> None
      | Some blocks \<Rightarrow> map_option ((@) blocks) (splitAll bits rest))"

text \<open>
  \<open>FindSubnetExcludeIPBlocks\<close>. \<open>sort.Slice\<close> orders the included ranges by start address;
  it is modelled by \<open>sort_key\<close> (ranges with equal starts overlap, and are refused in
  either order). The gateway is appended to the excluded addresses when it is not nil.
  The result is \<open>None\<close> when a split does not return.
\<close>

definition FindSubnetExcludeIPBlocks ::
  "nat \<Rightarrow> IPNet \<Rightarrow> IPRange list \<Rightarrow> int option \<Rightarrow> int option list
     \<Rightarrow> (error + IPNet list) option" where
  "FindSubnetExcludeIPBlocks bits cidr includedRanges gateway excludeIPs =
     (case excludeRangesLoop (netIP cidr) (LastIP bits cidr) 0
             (sort_key start includedRanges) [] of
        Inl err \<Rightarrow> Some (Inl err)
      | Inr excludeIPRanges \<Rightarrow>
          (case addExcludedIPs excludeIPRanges
                  (excludeIPs @ (case gateway of None \<Rightarrow> [] | Some g \<Rightarrow> [Some g])) of
             Inl err \<Rightarrow> Some (Inl err)
           | Inr ranges \<Rightarrow> map_option Inr (splitAll bits ranges)))"

text \<open>The addresses of a range and of a block.\<close>

definition rangeAddrs :: "IPRange \<Rightarrow> int set" where
  "rangeAddrs ir = {start ir .. endip ir}"

definition blockAddrs :: "nat \<Rightarrow> IPNet \<Rightarrow> int set" where
  "blockAddrs bits n = {a. Contains bits n a}"

text \<open>
  The greedy decomposition in words: \<open>largestFit\<close> says that \<open>2 ^ k\<close> is the largest block
  size, of at most \<open>bits\<close> bits, that the alignment of \<open>s\<close> permits and that does not extend
  past \<open>e\<close>; \<open>greedyChain\<close> says that each block of the list is anchored at the current
  start address with that size, and that the next block starts just past it, until a block
  ends on \<open>e\<close>.
\<close>

definition largestFit :: "nat \<Rightarrow> int \<Rightarrow> int \<Rightarrow> nat \<Rightarrow> bool" where
  "largestFit bits s e k =
     (k \<le> bits \<and> 2 ^ k dvd s \<and> s + 2 ^ k - 1 \<le> e \<and>
      (\<forall>j \<in> {..bits}. 2 ^ j dvd s \<and> s + 2 ^ j - 1 \<le> e \<longrightarrow> j \<le> k))"

fun greedyChain :: "nat \<Rightarrow> int \<Rightarrow> int \<Rightarrow> IPNet list \<Rightarrow> bool" where
  "greedyChain bits s e [] = False"
| "greedyChain bits s e (b # bs) =
     (netIP b = s \<and> netOnes b \<le> bits \<and> largestFit bits s e (bits - netOnes b) \<and>
      (if LastIP bits b = e then bs = [] else greedyChain bits (NextIP (LastIP bits b)) e bs))"

text \<open>
  Two ways of saying that included ranges collide: \<open>consecOverlap\<close> is the test of the
  first loop on neighbours of the sorted list, \<open>overlapping\<close> says that two ranges at
  different positions of a list share an address.
\<close>

fun consecOverlap :: "IPRange list \<Rightarrow> bool" where
  "consecOverlap [] = False"
| "consecOverlap [x] = False"
| "consecOverlap (x # y # rest) = (start y \<le> endip x \<or> consecOverlap (y # rest))"

definition overlapping :: "IPRange list \<Rightarrow> bool" where
  "overlapping rs = (\<exists>i j. i < j \<and> j < length rs \<and> rangeAddrs (rs ! i) \<inter> rangeAddrs (rs ! j) \<noteq> {})"

section \<open>Kernel state and the policy-route manager\<close>

text \<open>
  Errors of the route package: an error of a netlink call, a plain message, and a message
  wrapping another error (\<open>fmt.Errorf("...: %v", err)\<close>).
\<close>

datatype routeError =
    KernelError
  | Plain string
  | Failed string routeError

text \<open>
  The kernel state of one address family, as the netlink calls of the daemon see it:
  the policy rules, the routes, the links by name, the local addresses. A netlink call may
  fail for reasons of the kernel's own: \<open>kFaults\<close> lists, call by call, whether the next
  netlink calls fail (an empty list: none does).
\<close>

record Rule =
  ruleSrc :: "IPNet option"
  ruleTable :: int
  rulePriority :: int
  ruleMark :: int
  ruleMask :: int

record Route =
  rtDst :: "IPNet option"
  rtTable :: int
  rtLinkIndex :: int
  rtScope :: int
  rtGw :: "int option"
  rtSrc :: "int option"
  rtType :: int

record Link =
  linkName :: string
  linkIndex :: int

record Addr =
  addrIP :: int
  addrOnes :: nat
  addrFlags :: int
  addrScope :: int
  addrLinkIndex :: int

text \<open>
  The mutations of the kernel state, as the log \<open>kLog\<close> records them in the order in which
  they succeed. The log is there to state in which order a call changes the kernel.
\<close>

datatype KOp =
    RouteReplaced Route
  | RouteDeleted Route
  | RuleAdded Rule
  | AddrAdded Addr
  | AddrDeleted Addr

record Kernel =
  kRules :: "Rule list"
  kRoutes :: "Route list"
  kLinks :: "Link list"
  kAddrs :: "Addr list"
  kFaults :: "bool list"
  kLog :: "KOp list"

definition MinRouteTableNum :: int where "MinRouteTableNum = 10000"
definition MaxRouteTableNum :: int where "MaxRouteTableNum = 40000"
definition MaxRulePriority :: int where "MaxRulePriority = 32767"
definition NodeLocalTableNum :: int where "NodeLocalTableNum = 255"

text \<open>Every netlink call consumes one entry of \<open>kFaults\<close>.\<close>

definition takeFault :: "Kernel \<Rightarrow> bool \<times> Kernel" where
  "takeFault k = (case kFaults k of [] \<Rightarrow> (False, k) | f # fs \<Rightarrow> (f, k\<lparr>kFaults := fs\<rparr>))"

text \<open>
  The destination of a default route is nil when netlink lists it; a route given with the
  destination \<open>0.0.0.0/0\<close> (or \<open>::/0\<close>) is the default route. \<open>normDst\<close> is the destination
  as the kernel lists it. A route given without a type is a unicast route. \<open>listedRoute\<close> is
  a route as the kernel lists it, and \<open>routeKey\<close> what identifies a route for
  \<open>netlink.RouteReplace\<close> and \<open>netlink.RouteDel\<close>: its table and its destination.
\<close>

definition RT_TABLE_MAIN :: int where "RT_TABLE_MAIN = 254"
definition RTN_UNICAST :: int where "RTN_UNICAST = 1"
definition RTN_THROW :: int where "RTN_THROW = 9"
definition SCOPE_UNIVERSE :: int where "SCOPE_UNIVERSE = 0"
definition SCOPE_LINK :: int where "SCOPE_LINK = 253"
definition FAMILY_V6 :: int where "FAMILY_V6 = 10"

definition normDst :: "IPNet option \<Rightarrow> IPNet option" where
  "normDst d = (if d = Some \<lparr>netIP = 0, netOnes = 0\<rparr> then None else d)"

definition listedRoute :: "Route \<Rightarrow> Route" where
  "listedRoute r =
     r\<lparr>rtDst := normDst (rtDst r), rtType := (if rtType r = 0 then RTN_UNICAST else rtType r)\<rparr>"

definition routeKey :: "Route \<Rightarrow> int \<times> IPNet option" where
  "routeKey r = (rtTable r, normDst (rtDst r))"

text \<open>
  \<open>netlink.RuleList\<close>, and \<open>netlink.RouteListFiltered\<close> with a table and the filter
  \<open>RT_FILTER_TABLE\<close>.
\<close>

definition RuleList :: "Kernel \<Rightarrow> (routeError + Rule list) \<times> Kernel" where
  "RuleList k =
     (if fst (takeFault k) then (Inl KernelError, snd (takeFault k))
      else (Inr (kRules k), snd (takeFault k)))"

definition RouteListByTable :: "int \<Rightarrow> Kernel \<Rightarrow> (routeError + Route list) \<times> Kernel" where
  "RouteListByTable tableNum k =
     (if fst (takeFault k) then (Inl KernelError, snd (takeFault k))
      else (Inr (map listedRoute (filter (\<lambda>r. rtTable r = tableNum) (kRoutes k))),
            snd (takeFault k)))"

definition realRulePriority :: "int \<Rightarrow> int" where
  "realRulePriority priority = (if priority = - 1 then 0 else priority)"

text \<open>
  \<open>findHighestUnusedRulePriority\<close>: the first loop fills \<open>priorityMap\<close> and remembers the
  priority of the rule of the node-local table, the second loop looks for the first
  priority that is not in use and lies above it.
\<close>

fun scanRules :: "Rule list \<Rightarrow> (int \<rightharpoonup> bool) \<times> int \<Rightarrow> (int \<rightharpoonup> bool) \<times> int" where
  "scanRules [] (priorityMap, nodeLocalRulePrio) = (priorityMap, nodeLocalRulePrio)"
| "scanRules (rule # rest) (priorityMap, nodeLocalRulePrio) =
     scanRules rest
       (priorityMap(realRulePriority (rulePriority rule) \<mapsto> True),
        if ruleTable rule = NodeLocalTableNum then realRulePriority (rulePriority rule)
        else nodeLocalRulePrio)"

function priorityLoop :: "(int \<rightharpoonup> bool) \<Rightarrow> int \<Rightarrow> int \<Rightarrow> routeError + int" where
  "priorityLoop priorityMap nodeLocalRulePrio priority =
     (if priority \<le> MaxRulePriority then
        (if priorityMap priority = None \<and> priority > nodeLocalRulePrio then Inr priority
         else priorityLoop priorityMap nodeLocalRulePrio (priority + 1))
      else Inl (Plain ''cannot find unused rule priority''))"
  by pat_completeness auto
termination
  by (relation "measure (\<lambda>(m, n, p). nat (MaxRulePriority + 1 - p))") auto

declare priorityLoop.simps [simp del]

definition findHighestUnusedRulePriority :: "Kernel \<Rightarrow> (routeError + int) \<times> Kernel" where
  "findHighestUnusedRulePriority k =
     (case fst (RuleList k) of
        Inl err \<Rightarrow> (Inl (Failed ''failed to list rules'' err), snd (RuleList k))
      | Inr ruleList \<Rightarrow>
          (priorityLoop (fst (scanRules ruleList (Map.empty, 0)))
             (snd (scanRules ruleList (Map.empty, 0))) 0,
           snd (RuleList k)))"

text \<open>\<open>checkIfRouteTableEmpty\<close> and the loop of \<open>findEmptyRouteTable\<close>.\<close>

definition checkIfRouteTableEmpty :: "int \<Rightarrow> Kernel \<Rightarrow> (routeError + bool) \<times> Kernel" where
  "checkIfRouteTableEmpty tableNum k =
     (case fst (RouteListByTable tableNum k) of
        Inl err \<Rightarrow> (Inl (Failed ''failed to list route for table'' err), snd (RouteListByTable tableNum k))
      | Inr routeList \<Rightarrow>
          (if length routeList = 0 then Inr True else Inr False, snd (RouteListByTable tableNum k)))"

function tableLoop :: "int \<Rightarrow> Kernel \<Rightarrow> (routeError + int) \<times> Kernel" where
  "tableLoop i k =
     (if i < MaxRouteTableNum then
        (case fst (checkIfRouteTableEmpty i k) of
           Inl err \<Rightarrow> (Inl (Failed ''failed to check route table empty'' err),
                        snd (checkIfRouteTableEmpty i k))
         | Inr isEmpty \<Rightarrow>
             if isEmpty then (Inr i, snd (checkIfRouteTableEmpty i k))
             else tableLoop (i + 1) (snd (checkIfRouteTableEmpty i k)))
      else (Inl (Plain ''cannot find empty route table in range''), k))"
  by pat_completeness auto
termination
  by (relation "measure (\<lambda>(i, k). nat (MaxRouteTableNum - i))") auto

declare tableLoop.simps [simp del]

definition findEmptyRouteTable :: "Kernel \<Rightarrow> (routeError + int) \<times> Kernel" where
  "findEmptyRouteTable k = tableLoop MinRouteTableNum k"

text \<open>\<open>faultAt k n\<close>: the netlink call number \<open>n\<close> from now (counting from 0) fails.\<close>

definition faultAt :: "Kernel \<Rightarrow> nat \<Rightarrow> bool" where
  "faultAt k n = (n < length (kFaults k) \<and> kFaults k ! n)"

subsection \<open>The netlink calls of the route package\<close>

text \<open>
  The calls of \<open>vishvananda/netlink\<close> that \<open>route/utils.go\<close> makes, on the kernel state:
  a listing returns what the state holds, \<open>RouteReplace\<close> puts the route in the place of
  the routes of its table and destination, \<open>RouteDel\<close> removes the routes of that table and
  destination, \<open>RuleAdd\<close> inserts the rule by its priority. A failing call changes nothing.
  A route list without a table filter (\<open>RouteList\<close>, the filter \<open>RT_FILTER_OIF|RT_FILTER_DST\<close>)
  is the list of the main table.
\<close>

unbundle bit_operations_syntax

definition IFA_F_NOPREFIXROUTE :: int where "IFA_F_NOPREFIXROUTE = 512"
definition fromRuleMark :: int where "fromRuleMark = 0"

definition familyBits :: "int \<Rightarrow> nat" where
  "familyBits family = (if family = FAMILY_V6 then 128 else 32)"

definition LinkByName :: "string \<Rightarrow> Kernel \<Rightarrow> (routeError + Link) \<times> Kernel" where
  "LinkByName name k =
     (if fst (takeFault k) then (Inl KernelError, snd (takeFault k))
      else (case find (\<lambda>l. linkName l = name) (kLinks k) of
              None \<Rightarrow> (Inl (Plain ''Link not found''), snd (takeFault k))
            | Some l \<Rightarrow> (Inr l, snd (takeFault k))))"

definition AddrListAll :: "Kernel \<Rightarrow> (routeError + Addr list) \<times> Kernel" where
  "AddrListAll k =
     (if fst (takeFault k) then (Inl KernelError, snd (takeFault k))
      else (Inr (kAddrs k), snd (takeFault k)))"

definition RouteListMain :: "Kernel \<Rightarrow> (routeError + Route list) \<times> Kernel" where
  "RouteListMain k =
     (if fst (takeFault k) then (Inl KernelError, snd (takeFault k))
      else (Inr (map listedRoute (filter (\<lambda>r. rtTable r = RT_TABLE_MAIN) (kRoutes k))),
            snd (takeFault k)))"

definition RouteListByTableType :: "int \<Rightarrow> int \<Rightarrow> Kernel \<Rightarrow> (routeError + Route list) \<times> Kernel" where
  "RouteListByTableType tableNum ty k =
     (if fst (takeFault k) then (Inl KernelError, snd (takeFault k))
      else (Inr (filter (\<lambda>r. rtType r = ty)
                   (map listedRoute (filter (\<lambda>r. rtTable r = tableNum) (kRoutes k)))),
            snd (takeFault k)))"

definition RouteListByOifDst :: "int \<Rightarrow> IPNet \<Rightarrow> Kernel \<Rightarrow> (routeError + Route list) \<times> Kernel" where
  "RouteListByOifDst oif dst k =
     (if fst (takeFault k) then (Inl KernelError, snd (takeFault k))
      else (Inr (filter (\<lambda>r. rtLinkIndex r = oif \<and> rtDst r = Some dst)
                   (map listedRoute (filter (\<lambda>r. rtTable r = RT_TABLE_MAIN) (kRoutes k)))),
            snd (takeFault k)))"

definition RouteReplace :: "Route \<Rightarrow> Kernel \<Rightarrow> routeError option \<times> Kernel" where
  "RouteReplace r k =
     (if fst (takeFault k) then (Some KernelError, snd (takeFault k))
      else (None, (snd (takeFault k))
              \<lparr>kRoutes := filter (\<lambda>x. routeKey x \<noteq> routeKey r) (kRoutes k) @ [listedRoute r],
               kLog := kLog k @ [RouteReplaced r]\<rparr>))"

definition RouteDel :: "Route \<Rightarrow> Kernel \<Rightarrow> routeError option \<times> Kernel" where
  "RouteDel r k =
     (if fst (takeFault k) then (Some KernelError, snd (takeFault k))
      else (None, (snd (takeFault k))
              \<lparr>kRoutes := filter (\<lambda>x. routeKey x \<noteq> routeKey r) (kRoutes k),
               kLog := kLog k @ [RouteDeleted r]\<rparr>))"

definition RuleAdd :: "Rule \<Rightarrow> Kernel \<Rightarrow> routeError option \<times> Kernel" where
  "RuleAdd rule k =
     (if fst (takeFault k) then (Some KernelError, snd (takeFault k))
      else (None, (snd (takeFault k))
              \<lparr>kRules := takeWhile (\<lambda>x. realRulePriority (rulePriority x) \<le> rulePriority rule) (kRules k)
                          @ [rule]
                          @ dropWhile (\<lambda>x. realRulePriority (rulePriority x) \<le> rulePriority rule) (kRules k),
               kLog := kLog k @ [RuleAdded rule]\<rparr>))"

subsection \<open>Rules and routes of a subnet\<close>

text \<open>
  \<open>networkingv1.NetworkMode\<close> is a string; the four modes of the \<open>switch\<close> and any other
  string. \<open>SubnetInfo\<close> as in \<open>route/utils.go\<close>. A map keyed by the text of a CIDR block
  (\<open>SubnetInfoMap\<close>, \<open>map[string]*net.IPNet\<close>) is a list of pairs in the order in which the
  \<open>range\<close> loop visits it; the key is the block whose text it is, \<open>None\<close> for the text of a
  nil block.
\<close>

datatype NetworkMode = NetworkModeVxlan | NetworkModeVlan | NetworkModeBGP | NetworkModeGlobalBGP
  | NetworkModeOther string

record SubnetInfo =
  siCidr :: "IPNet option"
  siGateway :: "int option"
  siExcludeIPs :: "int option list"
  siIncludedIPRanges :: "IPRange list"
  siForwardNodeIfName :: string
  siAutoNatOutgoing :: bool
  siIsUnderlayOnHost :: bool
  siMode :: NetworkMode

text \<open>
  \<open>checkIfRuleExist\<close>: the first rule with the source \<open>src\<close> (and, for a positive table
  number, with that table). \<open>appendHighestUnusedPriorityRuleIfNotExist\<close> adds the rule
  unless it exists. The parameter \<open>maskBits\<close> is the mask of the rule.
\<close>

definition checkIfRuleExist ::
  "IPNet option \<Rightarrow> int \<Rightarrow> Kernel \<Rightarrow> (routeError + Rule option) \<times> Kernel" where
  "checkIfRuleExist src tableNum k =
     (case RuleList k of
        (Inl err, k1) \<Rightarrow> (Inl (Failed ''list subnet policy rules error'' err), k1)
      | (Inr ruleList, k1) \<Rightarrow>
          (Inr (find (\<lambda>rule. src = ruleSrc rule \<and> (if tableNum > 0 then ruleTable rule = tableNum else True))
                  ruleList), k1))"

definition appendHighestUnusedPriorityRuleIfNotExist ::
  "IPNet option \<Rightarrow> int \<Rightarrow> int \<Rightarrow> int \<Rightarrow> Kernel \<Rightarrow> routeError option \<times> Kernel" where
  "appendHighestUnusedPriorityRuleIfNotExist src tableNum mark maskBits k =
     (case checkIfRuleExist src tableNum k of
        (Inl err, k1) \<Rightarrow> (Some (Failed ''failed to check rule exist'' err), k1)
      | (Inr (Some rule), k1) \<Rightarrow> (None, k1)
      | (Inr None, k1) \<Rightarrow>
          (case findHighestUnusedRulePriority k1 of
             (Inl err, k2) \<Rightarrow> (Some (Failed ''failed to find highest unused rule priority'' err), k2)
           | (Inr priority, k2) \<Rightarrow>
               (case RuleAdd \<lparr>ruleSrc = src, ruleTable = tableNum, rulePriority = priority,
                              ruleMark = mark, ruleMask = maskBits\<rparr> k2 of
                  (Some err, k3) \<Rightarrow> (Some (Failed ''failed to add policy rule'' err), k3)
                | (None, k3) \<Rightarrow> (None, k3))))"

text \<open>
  \<open>defaultRouteDstByFamily\<close>, \<open>isExcludeRoute\<close>, and \<open>IsDefaultRoute\<close> and \<open>GetDefaultRoute\<close>
  of \<open>daemon/utils\<close>; \<open>GetDefaultRoute\<close> returns \<open>Inr None\<close> for the error \<open>NotExist\<close>.
\<close>

definition defaultRouteDstByFamily :: "int \<Rightarrow> IPNet" where
  "defaultRouteDstByFamily family =
     (if family = FAMILY_V6 then \<lparr>netIP = 0, netOnes = 0\<rparr> else \<lparr>netIP = 0, netOnes = 0\<rparr>)"

definition isExcludeRoute :: "Route \<Rightarrow> bool" where
  "isExcludeRoute route = (rtType route = RTN_THROW)"

definition IsDefaultRoute :: "Route \<Rightarrow> bool" where
  "IsDefaultRoute route = (rtDst route = None \<or> rtDst route = Some \<lparr>netIP = 0, netOnes = 0\<rparr>)"

definition GetDefaultRoute :: "Kernel \<Rightarrow> (routeError + Route option) \<times> Kernel" where
  "GetDefaultRoute k =
     (case RouteListMain k of
        (Inl err, k1) \<Rightarrow> (Inl err, k1)
      | (Inr routes, k1) \<Rightarrow> (Inr (find IsDefaultRoute routes), k1))"

text \<open>
  \<open>ensureExcludedIPBlockRoutes\<close> with its two loops: over the listed throw routes, and
  over the blocks of the map.
\<close>

fun deleteExcludedRoutes ::
  "(IPNet option \<times> IPNet) list \<Rightarrow> Route list \<Rightarrow> Kernel \<Rightarrow> routeError option \<times> Kernel" where
  "deleteExcludedRoutes excludeIPBlockMap [] k = (None, k)"
| "deleteExcludedRoutes excludeIPBlockMap (route # rest) k =
     (if map_of excludeIPBlockMap (rtDst route) = None then
        (case RouteDel route k of
           (Some err, k1) \<Rightarrow> (Some (Failed ''failed delete excluded route'' err), k1)
         | (None, k1) \<Rightarrow> deleteExcludedRoutes excludeIPBlockMap rest k1)
      else deleteExcludedRoutes excludeIPBlockMap rest k)"

fun addExcludedRoutes :: "int \<Rightarrow> IPNet list \<Rightarrow> Kernel \<Rightarrow> routeError option \<times> Kernel" where
  "addExcludedRoutes tableNum [] k = (None, k)"
| "addExcludedRoutes tableNum (cidr # rest) k =
     (case RouteReplace \<lparr>rtDst = Some cidr, rtTable = tableNum, rtLinkIndex = 0, rtScope = 0,
                         rtGw = None, rtSrc = None, rtType = RTN_THROW\<rparr> k of
        (Some err, k1) \<Rightarrow> (Some (Failed ''failed to add excluded route for block'' err), k1)
      | (None, k1) \<Rightarrow> addExcludedRoutes tableNum rest k1)"

definition ensureExcludedIPBlockRoutes ::
  "(IPNet option \<times> IPNet) list \<Rightarrow> int \<Rightarrow> Kernel \<Rightarrow> routeError option \<times> Kernel" where
  "ensureExcludedIPBlockRoutes excludeIPBlockMap tableNum k =
     (case RouteListByTableType tableNum RTN_THROW k of
        (Inl err, k1) \<Rightarrow> (Some (Failed ''failed to list excluded routes'' err), k1)
      | (Inr excludedRouteList, k1) \<Rightarrow>
          (case deleteExcludedRoutes excludeIPBlockMap excludedRouteList k1 of
             (Some err, k2) \<Rightarrow> (Some err, k2)
           | (None, k2) \<Rightarrow> addExcludedRoutes tableNum (map snd excludeIPBlockMap) k2))"

text \<open>
  \<open>ensureRoutesForVxlanSubnet\<close> with its loops: \<open>deleteUselessRoutes\<close> is the loop of the
  branch without NAT, \<open>deleteNonUnderlayRoutes\<close> and \<open>setUnderlayRoutes\<close> are the two loops
  of the branch with NAT.
\<close>

fun deleteUselessRoutes :: "Route list \<Rightarrow> Kernel \<Rightarrow> routeError option \<times> Kernel" where
  "deleteUselessRoutes [] k = (None, k)"
| "deleteUselessRoutes (route # rest) k =
     (if rtDst route \<noteq> None then
        (case RouteDel route k of
           (Some err, k1) \<Rightarrow> (Some (Failed ''failed to delete overlay route'' err), k1)
         | (None, k1) \<Rightarrow> deleteUselessRoutes rest k1)
      else deleteUselessRoutes rest k)"

fun deleteNonUnderlayRoutes ::
  "int \<Rightarrow> (IPNet option \<times> SubnetInfo) list \<Rightarrow> Route list \<Rightarrow> Kernel \<Rightarrow> routeError option \<times> Kernel" where
  "deleteNonUnderlayRoutes family underlaySubnetInfoMap [] k = (None, k)"
| "deleteNonUnderlayRoutes family underlaySubnetInfoMap (route # rest) k =
     (if isExcludeRoute route then deleteNonUnderlayRoutes family underlaySubnetInfoMap rest k
      else if rtDst route \<noteq> None \<and> map_of underlaySubnetInfoMap (rtDst route) \<noteq> None
      then deleteNonUnderlayRoutes family underlaySubnetInfoMap rest k
      else
        (case RouteDel (if rtDst route \<noteq> None then route
                        else route\<lparr>rtDst := Some (defaultRouteDstByFamily family)\<rparr>) k of
           (Some err, k1) \<Rightarrow> (Some (Failed ''failed to delete overlay route'' err), k1)
         | (None, k1) \<Rightarrow> deleteNonUnderlayRoutes family underlaySubnetInfoMap rest k1))"

fun setUnderlayRoutes :: "Link \<Rightarrow> int \<Rightarrow> SubnetInfo list \<Rightarrow> Kernel \<Rightarrow> routeError option \<times> Kernel" where
  "setUnderlayRoutes forwardLink tableNum [] k = (None, k)"
| "setUnderlayRoutes forwardLink tableNum (subnet # rest) k =
     (case RouteReplace \<lparr>rtDst = siCidr subnet, rtTable = tableNum, rtLinkIndex = linkIndex forwardLink,
                         rtScope = SCOPE_UNIVERSE, rtGw = None, rtSrc = None, rtType = 0\<rparr> k of
        (Some err, k1) \<Rightarrow> (Some (Failed ''failed to set overlay route'' err), k1)
      | (None, k1) \<Rightarrow> setUnderlayRoutes forwardLink tableNum rest k1)"

definition ensureRoutesForVxlanSubnet ::
  "Link \<Rightarrow> IPNet \<Rightarrow> int \<Rightarrow> bool \<Rightarrow> int \<Rightarrow> (IPNet option \<times> SubnetInfo) list
     \<Rightarrow> (IPNet option \<times> IPNet) list \<Rightarrow> Kernel \<Rightarrow> routeError option \<times> Kernel" where
  "ensureRoutesForVxlanSubnet forwardLink cidr tableNum autoNatOutgoing family underlaySubnetInfoMap
       underlayExcludeIPBlockMap k =
     (case RouteListByTable tableNum k of
        (Inl err, k1) \<Rightarrow> (Some (Failed ''failed to list route for table'' err), k1)
      | (Inr routeList, k1) \<Rightarrow>
          if \<not> autoNatOutgoing then
            (case RouteReplace \<lparr>rtDst = Some (defaultRouteDstByFamily family), rtTable = tableNum,
                                rtLinkIndex = linkIndex forwardLink, rtScope = SCOPE_UNIVERSE,
                                rtGw = None, rtSrc = None, rtType = 0\<rparr> k1 of
               (Some err, k2) \<Rightarrow> (Some (Failed ''failed to add overlay subnet default route'' err), k2)
             | (None, k2) \<Rightarrow> deleteUselessRoutes routeList k2)
          else
            (case deleteNonUnderlayRoutes family underlaySubnetInfoMap routeList k1 of
               (Some err, k2) \<Rightarrow> (Some err, k2)
             | (None, k2) \<Rightarrow>
                 (case setUnderlayRoutes forwardLink tableNum (map snd underlaySubnetInfoMap) k2 of
                    (Some err, k3) \<Rightarrow> (Some err, k3)
                  | (None, k3) \<Rightarrow>
                      (case ensureExcludedIPBlockRoutes underlayExcludeIPBlockMap tableNum k3 of
                         (Some err, k4) \<Rightarrow>
                           (Some (Failed ''failed to ensure exclude all ip block routes'' err), k4)
                       | (None, k4) \<Rightarrow> (None, k4)))))"

text \<open>
  \<open>ensureRoutesForVlanSubnet\<close>. \<open>containsIP\<close> is \<open>cidr.Contains\<close> on an address that may
  be nil. The inner \<open>case\<close> is the block \<open>if isLocalSubnet\<close>: it yields the source address of
  the direct route, or the error with which the function returns.
\<close>

definition containsIP :: "nat \<Rightarrow> IPNet \<Rightarrow> int option \<Rightarrow> bool" where
  "containsIP bits cidr ip = (case ip of None \<Rightarrow> False | Some a \<Rightarrow> Contains bits cidr a)"

definition ensureRoutesForVlanSubnet ::
  "Link \<Rightarrow> IPNet \<Rightarrow> int option \<Rightarrow> int \<Rightarrow> int \<Rightarrow> Kernel \<Rightarrow> routeError option \<times> Kernel" where
  "ensureRoutesForVlanSubnet forwardLink cidr gateway tableNum family k =
     (case AddrListAll k of
        (Inl err, k1) \<Rightarrow> (Some (Failed ''failed to list local addresses'' err), k1)
      | (Inr localAddrList, k1) \<Rightarrow>
          if \<not> containsIP (familyBits family) cidr gateway
          then (Some (Plain ''vlan gateway address is not inside the vlan subnet cidr''), k1)
          else
            (case (if list_ex (\<lambda>address. Contains (familyBits family) cidr (addrIP address) \<and>
                                   addrFlags address AND IFA_F_NOPREFIXROUTE = 0) localAddrList
                   then
                     (case GetDefaultRoute k1 of
                        (Inl err, k2) \<Rightarrow> (Inl (Failed ''failed to get default route'' err), k2)
                      | (Inr defaultRoute, k2) \<Rightarrow>
                          if (case defaultRoute of None \<Rightarrow> False
                              | Some r \<Rightarrow> rtLinkIndex r = linkIndex forwardLink \<and> rtGw r \<noteq> None \<and>
                                          rtGw r \<noteq> gateway)
                          then (Inl (Plain ''exist default route of forward interface has a different gateway''), k2)
                          else
                            (case RouteListByOifDst (linkIndex forwardLink) cidr k2 of
                               (Inl err, k3) \<Rightarrow> (Inl (Failed ''failed to list direct route'' err), k3)
                             | (Inr directRouteList, k3) \<Rightarrow>
                                 if length directRouteList = 0
                                 then (Inl (Plain ''forward interface should have direct route for local subnet''), k3)
                                 else (Inr (rtSrc (hd directRouteList)), k3)))
                   else (Inr None, k1)) of
               (Inl err, k4) \<Rightarrow> (Some err, k4)
             | (Inr directSrc, k4) \<Rightarrow>
                 (case RouteReplace \<lparr>rtDst = Some cidr, rtTable = tableNum,
                                     rtLinkIndex = linkIndex forwardLink, rtScope = SCOPE_LINK,
                                     rtGw = None, rtSrc = directSrc, rtType = 0\<rparr> k4 of
                    (Some err, k5) \<Rightarrow> (Some (Failed ''failed to add vlan subent direct route'' err), k5)
                  | (None, k5) \<Rightarrow>
                      (case RouteReplace \<lparr>rtDst = None, rtTable = tableNum,
                                          rtLinkIndex = linkIndex forwardLink, rtScope = SCOPE_UNIVERSE,
                                          rtGw = gateway, rtSrc = None, rtType = 0\<rparr> k5 of
                         (Some err, k6) \<Rightarrow> (Some (Failed ''failed to add vlan subnet default route'' err), k6)
                       | (None, k6) \<Rightarrow> (None, k6)))))"

text \<open>\<open>ensureRoutesForBGPSubnet\<close>, and the \<open>switch\<close> on the mode as a function of its own.\<close>

definition ensureRoutesForBGPSubnet ::
  "Link \<Rightarrow> IPNet \<Rightarrow> int \<Rightarrow> int option \<Rightarrow> Kernel \<Rightarrow> routeError option \<times> Kernel" where
  "ensureRoutesForBGPSubnet forwardLink cidr tableNum gateway k =
     (case RouteReplace \<lparr>rtDst = None, rtTable = tableNum, rtLinkIndex = linkIndex forwardLink,
                         rtScope = SCOPE_UNIVERSE, rtGw = gateway, rtSrc = None, rtType = 0\<rparr> k of
        (Some err, k1) \<Rightarrow> (Some (Failed ''failed to add bgp subnet default route'' err), k1)
      | (None, k1) \<Rightarrow> (None, k1))"

definition ensureRoutesByMode ::
  "Link \<Rightarrow> IPNet \<Rightarrow> int option \<Rightarrow> int \<Rightarrow> bool \<Rightarrow> int \<Rightarrow> (IPNet option \<times> SubnetInfo) list
     \<Rightarrow> (IPNet option \<times> IPNet) list \<Rightarrow> NetworkMode \<Rightarrow> Kernel \<Rightarrow> routeError option \<times> Kernel" where
  "ensureRoutesByMode forwardLink cidr gateway tableNum autoNatOutgoing family underlaySubnetInfoMap
       underlayExcludeIPBlockMap mode k =
     (case mode of
        NetworkModeVxlan \<Rightarrow>
          (case ensureRoutesForVxlanSubnet forwardLink cidr tableNum autoNatOutgoing family
                  underlaySubnetInfoMap underlayExcludeIPBlockMap k of
             (Some err, k1) \<Rightarrow> (Some (Failed ''failed to ensure routes for vxlan subnet'' err), k1)
           | (None, k1) \<Rightarrow> (None, k1))
      | NetworkModeVlan \<Rightarrow>
          (case ensureRoutesForVlanSubnet forwardLink cidr gateway tableNum family k of
             (Some err, k1) \<Rightarrow> (Some (Failed ''failed to ensure routes for vlan subnet'' err), k1)
           | (None, k1) \<Rightarrow> (None, k1))
      | NetworkModeBGP \<Rightarrow>
          (case ensureRoutesForBGPSubnet forwardLink cidr tableNum gateway k of
             (Some err, k1) \<Rightarrow> (Some (Failed ''failed to ensure routes for bgp subnet'' err), k1)
           | (None, k1) \<Rightarrow> (None, k1))
      | NetworkModeGlobalBGP \<Rightarrow>
          (case ensureRoutesForBGPSubnet forwardLink cidr tableNum gateway k of
             (Some err, k1) \<Rightarrow> (Some (Failed ''failed to ensure routes for bgp subnet'' err), k1)
           | (None, k1) \<Rightarrow> (None, k1))
      | NetworkModeOther name \<Rightarrow> (Some (Plain ''unsupported network mode''), k))"

text \<open>
  \<open>ensureFromPodSubnetRuleAndRoutes\<close>. The constant \<open>fromRuleMask\<close> is the sum of two
  constants of the package \<open>iptables\<close>, which is not among the sources; it is the first
  parameter.
\<close>

definition ensureFromPodSubnetRuleAndRoutes ::
  "int \<Rightarrow> string \<Rightarrow> IPNet \<Rightarrow> int option \<Rightarrow> bool \<Rightarrow> int \<Rightarrow> (IPNet option \<times> SubnetInfo) list
     \<Rightarrow> (IPNet option \<times> IPNet) list \<Rightarrow> NetworkMode \<Rightarrow> Kernel \<Rightarrow> routeError option \<times> Kernel" where
  "ensureFromPodSubnetRuleAndRoutes fromRuleMask forwardNodeIfName cidr gateway autoNatOutgoing family
       underlaySubnetInfoMap underlayExcludeIPBlockMap mode k =
     (case checkIfRuleExist (Some cidr) (- 1) k of
        (Inl err, k1) \<Rightarrow> (Some (Failed ''failed to check rule exist'' err), k1)
      | (Inr existRule, k1) \<Rightarrow>
          (case (case existRule of
                   None \<Rightarrow> findEmptyRouteTable k1
                 | Some rule \<Rightarrow> (Inr (ruleTable rule), k1)) of
             (Inl err, k2) \<Rightarrow> (Some (Failed ''failed to find empty route table'' err), k2)
           | (Inr tableNum, k2) \<Rightarrow>
               (case LinkByName forwardNodeIfName k2 of
                  (Inl err, k3) \<Rightarrow> (Some (Failed ''failed to get forward link'' err), k3)
                | (Inr forwardLink, k3) \<Rightarrow>
                    (case ensureRoutesByMode forwardLink cidr gateway tableNum autoNatOutgoing family
                            underlaySubnetInfoMap underlayExcludeIPBlockMap mode k3 of
                       (Some err, k4) \<Rightarrow> (Some err, k4)
                     | (None, k4) \<Rightarrow>
                         if existRule = None then
                           (case appendHighestUnusedPriorityRuleIfNotExist (Some cidr) tableNum
                                   fromRuleMark fromRuleMask k4 of
                              (Some err, k5) \<Rightarrow>
                                (Some (Failed ''failed to append from subnet rule for cidr'' err), k5)
                            | (None, k5) \<Rightarrow> (None, k5))
                         else (None, k4)))))"

text \<open>
  For the order in which a call changes the kernel: \<open>opsSince k k'\<close> are the mutations
  logged from \<open>k\<close> to \<open>k'\<close>; \<open>unchanged\<close> says that nothing but the pending faults
  differs; \<open>routesOnly\<close> says that the rules are the same and no rule was added, whatever
  happened to the routes.
\<close>

fun isRuleAdded :: "KOp \<Rightarrow> bool" where
  "isRuleAdded (RuleAdded rule) = True"
| "isRuleAdded op = False"

definition opsSince :: "Kernel \<Rightarrow> Kernel \<Rightarrow> KOp list" where
  "opsSince k k' = drop (length (kLog k)) (kLog k')"

definition unchanged :: "Kernel \<Rightarrow> Kernel \<Rightarrow> bool" where
  "unchanged k k' =
     (kRules k' = kRules k \<and> kRoutes k' = kRoutes k \<and> kLinks k' = kLinks k \<and>
      kAddrs k' = kAddrs k \<and> kLog k' = kLog k)"

definition routesOnly :: "Kernel \<Rightarrow> Kernel \<Rightarrow> bool" where
  "routesOnly k k' =
     (kRules k' = kRules k \<and> kLinks k' = kLinks k \<and> kAddrs k' = kAddrs k \<and>
      kLog k' = kLog k @ opsSince k k' \<and>
      list_all (\<lambda>op. \<not> isRuleAdded op) (opsSince k k'))"

section \<open>The address manager\<close>

text \<open>
  The netlink calls of \<open>SyncAddresses\<close>. \<open>NewAddr\<close> is a \<open>netlink.Addr\<close> as the program
  builds it, its address possibly nil; the kernel refuses to add an address that is nil.
  \<open>AddrList\<close> lists the addresses of a link, \<open>AddrDel\<close> removes the address from the link.
\<close>

definition RT_SCOPE_LINK :: int where "RT_SCOPE_LINK = 253"

record NewAddr =
  newIP :: "int option"
  newOnes :: nat
  newLabel :: string
  newFlags :: int
  newScope :: int

definition LinkList :: "Kernel \<Rightarrow> (routeError + Link list) \<times> Kernel" where
  "LinkList k =
     (if fst (takeFault k) then (Inl KernelError, snd (takeFault k))
      else (Inr (kLinks k), snd (takeFault k)))"

definition AddrList :: "Link \<Rightarrow> Kernel \<Rightarrow> (routeError + Addr list) \<times> Kernel" where
  "AddrList link k =
     (if fst (takeFault k) then (Inl KernelError, snd (takeFault k))
      else (Inr (filter (\<lambda>a. addrLinkIndex a = linkIndex link) (kAddrs k)), snd (takeFault k)))"

definition AddrAdd :: "Link \<Rightarrow> NewAddr \<Rightarrow> Kernel \<Rightarrow> routeError option \<times> Kernel" where
  "AddrAdd link addr k =
     (if fst (takeFault k) then (Some KernelError, snd (takeFault k))
      else (case newIP addr of
              None \<Rightarrow> (Some KernelError, snd (takeFault k))
            | Some a \<Rightarrow>
                (None, (snd (takeFault k))
                   \<lparr>kAddrs := kAddrs k @ [\<lparr>addrIP = a, addrOnes = newOnes addr, addrFlags = newFlags addr,
                                             addrScope = newScope addr, addrLinkIndex = linkIndex link\<rparr>],
                    kLog := kLog k @ [AddrAdded \<lparr>addrIP = a, addrOnes = newOnes addr,
                                         addrFlags = newFlags addr, addrScope = newScope addr,
                                         addrLinkIndex = linkIndex link\<rparr>]\<rparr>)))"

definition AddrDel :: "Link \<Rightarrow> Addr \<Rightarrow> Kernel \<Rightarrow> routeError option \<times> Kernel" where
  "AddrDel link addr k =
     (if fst (takeFault k) then (Some KernelError, snd (takeFault k))
      else (None, (snd (takeFault k))
              \<lparr>kAddrs := filter (\<lambda>a. \<not> (addrLinkIndex a = linkIndex link \<and> addrIP a = addrIP addr \<and>
                                          addrOnes a = addrOnes addr)) (kAddrs k),
               kLog := kLog k @ [AddrDeleted addr]\<rparr>))"

text \<open>
  The \<open>Manager\<close>; its maps are lists of pairs in the order of the \<open>range\<close> loops, a subnet
  is keyed by its text (\<open>subnet.String()\<close>), modelled by the block, \<open>None\<close> for a nil
  block. Of an \<open>IPInstance\<close> only the label \<open>constants.LabelNode\<close> is read.
\<close>

type_synonym subnetToPodMap = "(IPNet option \<times> int option) list"

record Manager =
  managerFamily :: int
  localNodeName :: string
  interfaceToSubnetMap :: "(string \<times> subnetToPodMap) list"

record IPInstance =
  labelNode :: string

definition CreateAddrManager :: "int \<Rightarrow> string \<Rightarrow> Manager" where
  "CreateAddrManager fam nodeName =
     \<lparr>managerFamily = fam, localNodeName = nodeName, interfaceToSubnetMap = []\<rparr>"

definition TryAddPodInfo :: "string \<Rightarrow> IPNet option \<Rightarrow> int option \<Rightarrow> Manager \<Rightarrow> Manager" where
  "TryAddPodInfo forwardNodeIfName subnet podIP m =
     (case map_of (interfaceToSubnetMap m) forwardNodeIfName of
        None \<Rightarrow>
          m\<lparr>interfaceToSubnetMap :=
              AList.update forwardNodeIfName [(subnet, podIP)] (interfaceToSubnetMap m)\<rparr>
      | Some subnetMap \<Rightarrow>
          if map_of subnetMap subnet = None
          then m\<lparr>interfaceToSubnetMap :=
                   AList.update forwardNodeIfName (AList.update subnet podIP subnetMap)
                     (interfaceToSubnetMap m)\<rparr>
          else m)"

text \<open>
  Modelled from the spec: \<open>ensureSubnetEnhancedAddr\<close> is not among the sources. The spec:
  add the new enhanced address and remove the superseded one only after the new one is
  confirmed installed.
\<close>

definition ensureSubnetEnhancedAddr ::
  "Link \<Rightarrow> NewAddr \<Rightarrow> Addr option \<Rightarrow> int \<Rightarrow> Kernel \<Rightarrow> routeError option \<times> Kernel" where
  "ensureSubnetEnhancedAddr link newEnhancedAddr outOfDateEnhancedAddr fam k =
     (case AddrAdd link newEnhancedAddr k of
        (Some err, k1) \<Rightarrow> (Some (Failed ''failed to add enhanced addr'' err), k1)
      | (None, k1) \<Rightarrow>
          (case outOfDateEnhancedAddr of
             None \<Rightarrow> (None, k1)
           | Some old \<Rightarrow>
               (case AddrDel link old k1 of
                  (Some err, k2) \<Rightarrow> (Some (Failed ''failed to delete out of date enhanced addr'' err), k2)
                | (None, k2) \<Rightarrow> (None, k2))))"

text \<open>
  \<open>SyncAddresses\<close>, loop by loop. \<open>CheckIfContainerNetworkLink\<close> (package
  \<open>containernetwork\<close>) and \<open>checkIfEnhancedAddr\<close> are not among the sources: they are
  parameters, any predicate on names and any function that reads the kernel, the link and
  the address. \<open>getIPInstanceByAddress\<close> is the parameter of the source. \<open>networkOf\<close> is
  \<open>ip.Network\<close>, the key of an address. \<open>classifyAddrs\<close> is the inner loop and \<open>scanLinks\<close>
  the outer loop of the first part.
\<close>

type_synonym enhancedAddrMap = "(string \<times> (IPNet option \<times> Addr) list) list"
type_synonym manualAddrSubnetMap = "(string \<times> (IPNet option \<times> bool) list) list"

definition networkOf :: "nat \<Rightarrow> Addr \<Rightarrow> IPNet option" where
  "networkOf bits addr =
     Some \<lparr>netIP = maskIP (addrOnes addr) bits (addrIP addr), netOnes = addrOnes addr\<rparr>"

fun classifyAddrs ::
  "(Kernel \<Rightarrow> Link \<Rightarrow> Addr \<Rightarrow> routeError + bool) \<Rightarrow> nat \<Rightarrow> Kernel \<Rightarrow> Link \<Rightarrow> Addr list
     \<Rightarrow> enhancedAddrMap \<times> manualAddrSubnetMap
     \<Rightarrow> routeError + enhancedAddrMap \<times> manualAddrSubnetMap" where
  "classifyAddrs checkIfEnhancedAddr bits k link [] (existEnhancedAddrMap, existManualAddrSubnetMap) =
     Inr (existEnhancedAddrMap, existManualAddrSubnetMap)"
| "classifyAddrs checkIfEnhancedAddr bits k link (addr # rest)
       (existEnhancedAddrMap, existManualAddrSubnetMap) =
     (case checkIfEnhancedAddr k link addr of
        Inl err \<Rightarrow> Inl (Failed ''check addr enhanced address failed'' err)
      | Inr isEnhancedAddr \<Rightarrow>
          classifyAddrs checkIfEnhancedAddr bits k link rest
            (if isEnhancedAddr
             then (AList.update (linkName link)
                     (AList.update (networkOf bits addr) addr
                        (case map_of existEnhancedAddrMap (linkName link) of
                           None \<Rightarrow> [] | Some subnetMap \<Rightarrow> subnetMap))
                     existEnhancedAddrMap,
                   existManualAddrSubnetMap)
             else (existEnhancedAddrMap,
                   AList.update (linkName link)
                     (AList.update (networkOf bits addr) True
                        (case map_of existManualAddrSubnetMap (linkName link) of
                           None \<Rightarrow> [] | Some subnetMap \<Rightarrow> subnetMap))
                     existManualAddrSubnetMap)))"

fun scanLinks ::
  "(string \<Rightarrow> bool) \<Rightarrow> (Kernel \<Rightarrow> Link \<Rightarrow> Addr \<Rightarrow> routeError + bool) \<Rightarrow> nat \<Rightarrow> Link list
     \<Rightarrow> enhancedAddrMap \<times> manualAddrSubnetMap \<times> (string \<times> Link) list \<Rightarrow> Kernel
     \<Rightarrow> (routeError + enhancedAddrMap \<times> manualAddrSubnetMap \<times> (string \<times> Link) list) \<times> Kernel" where
  "scanLinks CheckIfContainerNetworkLink checkIfEnhancedAddr bits [] maps k = (Inr maps, k)"
| "scanLinks CheckIfContainerNetworkLink checkIfEnhancedAddr bits (link # rest)
       (existEnhancedAddrMap, existManualAddrSubnetMap, existLinkMap) k =
     (if CheckIfContainerNetworkLink (linkName link)
      then scanLinks CheckIfContainerNetworkLink checkIfEnhancedAddr bits rest
             (existEnhancedAddrMap, existManualAddrSubnetMap, existLinkMap) k
      else
        (case AddrList link k of
           (Inl err, k1) \<Rightarrow> (Inl (Failed ''list addresses for link failed'' err), k1)
         | (Inr addrList, k1) \<Rightarrow>
             (case classifyAddrs checkIfEnhancedAddr bits k1 link addrList
                     (existEnhancedAddrMap, existManualAddrSubnetMap) of
                Inl err \<Rightarrow> (Inl err, k1)
              | Inr (enhanced, manual) \<Rightarrow>
                  scanLinks CheckIfContainerNetworkLink checkIfEnhancedAddr bits rest
                    (enhanced, manual, AList.update (linkName link) link existLinkMap) k1)))"

text \<open>
  \<open>existLinkMap[existLinkName]\<close>: every key of \<open>existEnhancedAddrMap\<close> is a key of
  \<open>existLinkMap\<close>; the zero value of a missing key is a nil link, which netlink refuses.
\<close>

fun deleteAddrs ::
  "string \<Rightarrow> Link option \<Rightarrow> subnetToPodMap option \<Rightarrow> (IPNet option \<times> Addr) list \<Rightarrow> Kernel
     \<Rightarrow> routeError option \<times> Kernel" where
  "deleteAddrs msg link targetSubnetMap [] k = (None, k)"
| "deleteAddrs msg link targetSubnetMap ((subnetString, enhancedAddr) # rest) k =
     (if (case targetSubnetMap of None \<Rightarrow> True | Some target \<Rightarrow> map_of target subnetString = None)
      then
        (case link of
           None \<Rightarrow> (Some (Failed msg KernelError), k)
         | Some l \<Rightarrow>
             (case AddrDel l enhancedAddr k of
                (Some err, k1) \<Rightarrow> (Some (Failed msg err), k1)
              | (None, k1) \<Rightarrow> deleteAddrs msg link targetSubnetMap rest k1))
      else deleteAddrs msg link targetSubnetMap rest k)"

fun clearEnhancedAddrs ::
  "(string \<times> subnetToPodMap) list \<Rightarrow> (string \<times> Link) list \<Rightarrow> enhancedAddrMap \<Rightarrow> Kernel
     \<Rightarrow> routeError option \<times> Kernel" where
  "clearEnhancedAddrs targets existLinkMap [] k = (None, k)"
| "clearEnhancedAddrs targets existLinkMap ((existLinkName, existSubnetMap) # rest) k =
     (case deleteAddrs
             (if map_of targets existLinkName = None then ''delete link enhanced addr failed''
              else ''delete link subnet enhanced addr failed'')
             (map_of existLinkMap existLinkName) (map_of targets existLinkName) existSubnetMap k of
        (Some err, k1) \<Rightarrow> (Some err, k1)
      | (None, k1) \<Rightarrow> clearEnhancedAddrs targets existLinkMap rest k1)"

text \<open>
  The last part. \<open>checkExistEnhancedAddr\<close> is the block that looks at the existing
  enhanced address of the subnet: \<open>Keep\<close> stands for \<open>continue\<close>, \<open>Install old\<close> for going
  on with \<open>outOfDateEnhancedAddr = old\<close>. \<open>net.ParseCIDR\<close> fails on the text of a nil
  block.
\<close>

datatype Refresh = Keep | Install "Addr option"

definition checkExistEnhancedAddr ::
  "(int \<Rightarrow> routeError + IPInstance option) \<Rightarrow> string \<Rightarrow> enhancedAddrMap \<Rightarrow> string
     \<Rightarrow> IPNet option \<Rightarrow> int option \<Rightarrow> routeError + Refresh" where
  "checkExistEnhancedAddr getIPInstanceByAddress localNode existEnhancedAddrMap forwardNodeIfName
       subnetString podIP =
     (case map_of existEnhancedAddrMap forwardNodeIfName of
        None \<Rightarrow> Inr (Install None)
      | Some subnetMap \<Rightarrow>
          (case map_of subnetMap subnetString of
             None \<Rightarrow> Inr (Install None)
           | Some enhancedAddr \<Rightarrow>
               if Some (addrIP enhancedAddr) = podIP then Inr Keep
               else
                 (case getIPInstanceByAddress (addrIP enhancedAddr) of
                    Inl err \<Rightarrow> Inl (Failed ''get ip instance by address failed'' err)
                  | Inr ipInstance \<Rightarrow>
                      if (case ipInstance of None \<Rightarrow> False
                          | Some inst \<Rightarrow> labelNode inst = localNode)
                      then Inr Keep
                      else Inr (Install (Some enhancedAddr)))))"

fun ensureSubnetAddrs ::
  "(int \<Rightarrow> routeError + IPInstance option) \<Rightarrow> string \<Rightarrow> int \<Rightarrow> enhancedAddrMap
     \<Rightarrow> manualAddrSubnetMap \<Rightarrow> string \<Rightarrow> Link \<Rightarrow> subnetToPodMap \<Rightarrow> Kernel
     \<Rightarrow> routeError option \<times> Kernel" where
  "ensureSubnetAddrs getIPInstanceByAddress localNode fam existEnhancedAddrMap existManualAddrSubnetMap
       forwardNodeIfName forwardNodeIf [] k = (None, k)"
| "ensureSubnetAddrs getIPInstanceByAddress localNode fam existEnhancedAddrMap existManualAddrSubnetMap
       forwardNodeIfName forwardNodeIf ((subnetString, podIP) # rest) k =
     (if (case map_of existManualAddrSubnetMap forwardNodeIfName of
            None \<Rightarrow> False | Some subnetMap \<Rightarrow> map_of subnetMap subnetString \<noteq> None)
      then ensureSubnetAddrs getIPInstanceByAddress localNode fam existEnhancedAddrMap
             existManualAddrSubnetMap forwardNodeIfName forwardNodeIf rest k
      else
        (case checkExistEnhancedAddr getIPInstanceByAddress localNode existEnhancedAddrMap
                forwardNodeIfName subnetString podIP of
           Inl err \<Rightarrow> (Some err, k)
         | Inr Keep \<Rightarrow>
             ensureSubnetAddrs getIPInstanceByAddress localNode fam existEnhancedAddrMap
               existManualAddrSubnetMap forwardNodeIfName forwardNodeIf rest k
         | Inr (Install outOfDateEnhancedAddr) \<Rightarrow>
             (case subnetString of
                None \<Rightarrow> (Some (Plain ''parse subnet cidr failed''), k)
              | Some subnetCidr \<Rightarrow>
                  (case ensureSubnetEnhancedAddr forwardNodeIf
                          \<lparr>newIP = podIP, newOnes = netOnes subnetCidr, newLabel = [],
                           newFlags = IFA_F_NOPREFIXROUTE, newScope = RT_SCOPE_LINK\<rparr>
                          outOfDateEnhancedAddr fam k of
                     (Some err, k1) \<Rightarrow> (Some (Failed ''ensure subnet enhanced addr failed'' err), k1)
                   | (None, k1) \<Rightarrow>
                       ensureSubnetAddrs getIPInstanceByAddress localNode fam existEnhancedAddrMap
                         existManualAddrSubnetMap forwardNodeIfName forwardNodeIf rest k1))))"

fun ensureEnhancedAddrs ::
  "(int \<Rightarrow> routeError + IPInstance option) \<Rightarrow> string \<Rightarrow> int \<Rightarrow> enhancedAddrMap
     \<Rightarrow> manualAddrSubnetMap \<Rightarrow> (string \<times> subnetToPodMap) list \<Rightarrow> Kernel
     \<Rightarrow> routeError option \<times> Kernel" where
  "ensureEnhancedAddrs getIPInstanceByAddress localNode fam existEnhancedAddrMap existManualAddrSubnetMap
       [] k = (None, k)"
| "ensureEnhancedAddrs getIPInstanceByAddress localNode fam existEnhancedAddrMap existManualAddrSubnetMap
       ((forwardNodeIfName, targetSubnetMap) # rest) k =
     (case LinkByName forwardNodeIfName k of
        (Inl err, k1) \<Rightarrow> (Some (Failed ''find interface failed'' err), k1)
      | (Inr forwardNodeIf, k1) \<Rightarrow>
          (case ensureSubnetAddrs getIPInstanceByAddress localNode fam existEnhancedAddrMap
                  existManualAddrSubnetMap forwardNodeIfName forwardNodeIf targetSubnetMap k1 of
             (Some err, k2) \<Rightarrow> (Some err, k2)
           | (None, k2) \<Rightarrow>
               ensureEnhancedAddrs getIPInstanceByAddress localNode fam existEnhancedAddrMap
                 existManualAddrSubnetMap rest k2))"

definition SyncAddresses ::
  "(string \<Rightarrow> bool) \<Rightarrow> (Kernel \<Rightarrow> Link \<Rightarrow> Addr \<Rightarrow> routeError + bool)
     \<Rightarrow> (int \<Rightarrow> routeError + IPInstance option) \<Rightarrow> Manager \<Rightarrow> Kernel
     \<Rightarrow> routeError option \<times> Kernel" where
  "SyncAddresses CheckIfContainerNetworkLink checkIfEnhancedAddr getIPInstanceByAddress m k =
     (case LinkList k of
        (Inl err, k1) \<Rightarrow> (Some (Failed ''list link failed'' err), k1)
      | (Inr linkList, k1) \<Rightarrow>
          (case scanLinks CheckIfContainerNetworkLink checkIfEnhancedAddr (familyBits (managerFamily m))
                  linkList ([], [], []) k1 of
             (Inl err, k2) \<Rightarrow> (Some err, k2)
           | (Inr (existEnhancedAddrMap, existManualAddrSubnetMap, existLinkMap), k2) \<Rightarrow>
               (case clearEnhancedAddrs (interfaceToSubnetMap m) existLinkMap existEnhancedAddrMap k2 of
                  (Some err, k3) \<Rightarrow> (Some err, k3)
                | (None, k3) \<Rightarrow>
                    ensureEnhancedAddrs getIPInstanceByAddress (localNodeName m) (managerFamily m)
                      existEnhancedAddrMap
                      existManualAddrSubnetMap (interfaceToSubnetMap m) k3)))"

text \<open>
  \<open>addrsOnly P k k'\<close>: from \<open>k\<close> to \<open>k'\<close> only addresses were added and deleted, every
  added address satisfies \<open>P\<close>, and so does every address of \<open>k'\<close> that \<open>k\<close> does not hold.
\<close>

definition addrsOnly :: "(Addr \<Rightarrow> bool) \<Rightarrow> Kernel \<Rightarrow> Kernel \<Rightarrow> bool" where
  "addrsOnly P k k' =
     (kRules k' = kRules k \<and> kRoutes k' = kRoutes k \<and> kLinks k' = kLinks k \<and>
      kLog k' = kLog k @ opsSince k k' \<and>
      list_all (\<lambda>op. case op of AddrAdded a \<Rightarrow> P a | AddrDeleted a \<Rightarrow> True | _ \<Rightarrow> False)
        (opsSince k k') \<and>
      list_all (\<lambda>a. a \<in> set (kAddrs k) \<or> P a) (kAddrs k'))"

section \<open>Properties of IP ranges\<close>

lemma maskIP_div: "maskIP p bits a = a div 2 ^ (bits - p) * 2 ^ (bits - p)"
  by (simp add: maskIP_def minus_mod_eq_div_mult)

lemma maskIP_fix_iff: "maskIP p bits a = a \<longleftrightarrow> 2 ^ (bits - p) dvd a"
  by (simp add: maskIP_def dvd_eq_mod_eq_0)

lemma Contains_iff:
  "Contains bits n a \<longleftrightarrow> a div 2 ^ (bits - netOnes n) = netIP n div 2 ^ (bits - netOnes n)"
  by (simp add: Contains_def maskIP_div)

lemma div_eq_iff_interval:
  fixes a q m :: int
  assumes "0 < m"
  shows "a div m = q \<longleftrightarrow> q * m \<le> a \<and> a \<le> q * m + m - 1"
proof
  assume h: "a div m = q"
  have "a = q * m + a mod m" using h by auto
  moreover have "0 \<le> a mod m" "a mod m < m" using assms by simp_all
  ultimately show "q * m \<le> a \<and> a \<le> q * m + m - 1" by linarith
next
  assume h: "q * m \<le> a \<and> a \<le> q * m + m - 1"
  show "a div m = q"
  proof (rule int_div_pos_eq)
    show "a = m * q + (a - q * m)" by (simp add: mult.commute)
    show "0 \<le> a - q * m" using h by simp
    show "a - q * m < m" using h by simp
  qed
qed

lemma blockAddrs_interval:
  "blockAddrs bits n = {maskIP (netOnes n) bits (netIP n) .. LastIP bits n}"
proof -
  have pos: "(0::int) < 2 ^ (bits - netOnes n)" by simp
  show ?thesis
    unfolding blockAddrs_def Contains_iff LastIP_def maskIP_div
    using div_eq_iff_interval [OF pos] by auto
qed

lemma aligned_block:
  assumes "2 ^ (bits - p) dvd s"
  shows "maskIP p bits s = s" and "LastIP bits \<lparr>netIP = s, netOnes = p\<rparr> = s + 2 ^ (bits - p) - 1"
    and "blockAddrs bits \<lparr>netIP = s, netOnes = p\<rparr> = {s .. s + 2 ^ (bits - p) - 1}"
  using assms by (simp_all add: blockAddrs_interval LastIP_def maskIP_fix_iff)

lemma zeroBitsLoop_spec:
  "z \<le> bits \<Longrightarrow>
   z \<le> zeroBitsLoop bits a z \<and> zeroBitsLoop bits a z \<le> bits \<and>
   2 ^ (bits - zeroBitsLoop bits a z) dvd a \<and>
   (\<forall>y. z \<le> y \<and> y < zeroBitsLoop bits a z \<longrightarrow> \<not> 2 ^ (bits - y) dvd a)"
proof (induction bits a z rule: zeroBitsLoop.induct)
  case (1 bits a z)
  show ?case
  proof (cases "maskIP z bits a \<noteq> a")
    case True
    then have lt: "z < bits"
      by (cases "z < bits") (simp_all add: maskIP_def)
    then have ih: "Suc z \<le> zeroBitsLoop bits a (Suc z) \<and> zeroBitsLoop bits a (Suc z) \<le> bits \<and>
       2 ^ (bits - zeroBitsLoop bits a (Suc z)) dvd a \<and>
       (\<forall>y. Suc z \<le> y \<and> y < zeroBitsLoop bits a (Suc z) \<longrightarrow> \<not> 2 ^ (bits - y) dvd a)"
      using "1.IH" [OF True] by simp
    have eq: "zeroBitsLoop bits a z = zeroBitsLoop bits a (Suc z)"
      using True by (subst zeroBitsLoop.simps) simp
    have nz: "\<not> 2 ^ (bits - z) dvd a" using True by (simp add: maskIP_fix_iff)
    show ?thesis
      unfolding eq using ih nz
      by (metis Suc_leD le_antisym not_less_eq_eq)
  next
    case False
    then have eq: "zeroBitsLoop bits a z = z"
      by (subst zeroBitsLoop.simps) simp
    show ?thesis unfolding eq using False "1.prems" by (simp add: maskIP_fix_iff)
  qed
qed

lemma pow2_dvd_mono: "j \<le> k \<Longrightarrow> (2::int) ^ k dvd a \<Longrightarrow> 2 ^ j dvd a"
  using le_imp_power_dvd dvd_trans by blast

lemma calculateIPLastZeroBits_spec:
  "calculateIPLastZeroBits bits a \<le> bits \<and> 2 ^ calculateIPLastZeroBits bits a dvd a \<and>
   (\<forall>j. j \<le> bits \<and> 2 ^ j dvd a \<longrightarrow> j \<le> calculateIPLastZeroBits bits a)"
proof -
  let ?r = "zeroBitsLoop bits a 0"
  have sp: "?r \<le> bits" "2 ^ (bits - ?r) dvd a"
    "\<And>y. y < ?r \<Longrightarrow> \<not> 2 ^ (bits - y) dvd a"
    using zeroBitsLoop_spec [of 0 bits a] by auto
  have "j \<le> bits - ?r" if "j \<le> bits" "2 ^ j dvd a" for j
  proof (rule ccontr)
    assume "\<not> j \<le> bits - ?r"
    then have "bits - j < ?r" using that(1) by arith
    from sp(3) [OF this] that show False by simp
  qed
  then show ?thesis using sp by (simp add: calculateIPLastZeroBits_def)
qed


lemma cidrLoop_spec:
  assumes "s \<le> e" "p0 \<le> bits" "2 ^ (bits - p0) dvd s"
  shows "\<exists>p. p0 \<le> p \<and> p \<le> bits \<and> s + 2 ^ (bits - p) - 1 \<le> e \<and>
           (\<forall>q. p0 \<le> q \<and> q < p \<longrightarrow> \<not> s + 2 ^ (bits - q) - 1 \<le> e) \<and>
           cidrLoop bits s e p0 =
             (\<lparr>netIP = s, netOnes = p\<rparr>,
              if s + 2 ^ (bits - p) - 1 = e then None else Some (s + 2 ^ (bits - p)))"
  using assms
proof (induction bits s e p0 rule: cidrLoop.induct)
  case (1 bits s e p0)
  have al: "LastIP bits \<lparr>netIP = s, netOnes = p0\<rparr> = s + 2 ^ (bits - p0) - 1"
    using aligned_block(2) [OF "1.prems"(3)] .
  have ba: "blockAddrs bits \<lparr>netIP = s, netOnes = p0\<rparr> = {s .. s + 2 ^ (bits - p0) - 1}"
    using aligned_block(3) [OF "1.prems"(3)] .
  have co: "Contains bits \<lparr>netIP = s, netOnes = p0\<rparr> e \<longleftrightarrow> e \<le> s + 2 ^ (bits - p0) - 1"
    using ba "1.prems"(1) by (auto simp: blockAddrs_def)
  show ?case
  proof (cases "s + 2 ^ (bits - p0) - 1 = e")
    case True
    then have "cidrLoop bits s e p0 = (\<lparr>netIP = s, netOnes = p0\<rparr>, None)"
      by (subst cidrLoop.simps) (simp add: al)
    then show ?thesis using True "1.prems" by (intro exI [of _ p0]) auto
  next
    case ne: False
    show ?thesis
    proof (cases "e \<le> s + 2 ^ (bits - p0) - 1")
      case True
      have lt: "p0 < bits"
      proof (rule ccontr)
        assume "\<not> p0 < bits"
        then have "bits - p0 = 0" by simp
        with True ne "1.prems"(1) show False by simp
      qed
      have dv: "2 ^ (bits - Suc p0) dvd s"
        using "1.prems"(3) by (rule pow2_dvd_mono [rotated]) simp
      have rec: "cidrLoop bits s e p0 = cidrLoop bits s e (Suc p0)"
        using ne True by (subst cidrLoop.simps) (simp add: al co)
      from "1.IH" [OF _ _ "1.prems"(1) _ dv] ne True lt
      obtain p where p: "Suc p0 \<le> p" "p \<le> bits" "s + 2 ^ (bits - p) - 1 \<le> e"
        "\<forall>q. Suc p0 \<le> q \<and> q < p \<longrightarrow> \<not> s + 2 ^ (bits - q) - 1 \<le> e"
        "cidrLoop bits s e (Suc p0) =
             (\<lparr>netIP = s, netOnes = p\<rparr>,
              if s + 2 ^ (bits - p) - 1 = e then None else Some (s + 2 ^ (bits - p)))"
        by (auto simp: al co)
      have "\<forall>q. p0 \<le> q \<and> q < p \<longrightarrow> \<not> s + 2 ^ (bits - q) - 1 \<le> e"
      proof (intro allI impI)
        fix q assume q: "p0 \<le> q \<and> q < p"
        show "\<not> s + 2 ^ (bits - q) - 1 \<le> e"
        proof (cases "q = p0")
          case True
          then show ?thesis using ne \<open>e \<le> s + 2 ^ (bits - p0) - 1\<close> by simp
        next
          case False
          then show ?thesis using p(4) q by simp
        qed
      qed
      then show ?thesis using p rec by (intro exI [of _ p]) auto
    next
      case False
      then have "cidrLoop bits s e p0 =
          (\<lparr>netIP = s, netOnes = p0\<rparr>, Some (s + 2 ^ (bits - p0)))"
        using ne by (subst cidrLoop.simps) (simp add: al co NextIP_def)
      then show ?thesis using False ne "1.prems" by (intro exI [of _ p0]) auto
    qed
  qed
qed

lemma findTheFirstLargestCidr_spec:
  assumes "s \<le> e"
  shows "\<exists>k. largestFit bits s e k \<and>
           findTheFirstLargestCidr bits s e =
             (\<lparr>netIP = s, netOnes = bits - k\<rparr>,
              if s + 2 ^ k - 1 = e then None else Some (s + 2 ^ k))"
proof -
  let ?tz = "calculateIPLastZeroBits bits s"
  have tz: "?tz \<le> bits" "2 ^ ?tz dvd s"
    "\<And>j. j \<le> bits \<Longrightarrow> 2 ^ j dvd s \<Longrightarrow> j \<le> ?tz"
    using calculateIPLastZeroBits_spec [of bits s] by auto
  have dv: "2 ^ (bits - (bits - ?tz)) dvd s" using tz(1,2) by simp
  from cidrLoop_spec [OF assms _ dv]
  obtain p where p: "bits - ?tz \<le> p" "p \<le> bits" "s + 2 ^ (bits - p) - 1 \<le> e"
    "\<And>q. bits - ?tz \<le> q \<Longrightarrow> q < p \<Longrightarrow> \<not> s + 2 ^ (bits - q) - 1 \<le> e"
    "cidrLoop bits s e (bits - ?tz) =
       (\<lparr>netIP = s, netOnes = p\<rparr>,
        if s + 2 ^ (bits - p) - 1 = e then None else Some (s + 2 ^ (bits - p)))"
    by auto
  let ?k = "bits - p"
  have kle: "?k \<le> ?tz" using p(1) tz(1) by arith
  have "largestFit bits s e ?k"
    unfolding largestFit_def
  proof (intro conjI ballI impI)
    show "?k \<le> bits" by simp
    show "2 ^ ?k dvd s" using pow2_dvd_mono [OF kle tz(2)] .
    show "s + 2 ^ ?k - 1 \<le> e" using p(3) .
    fix j assume j: "j \<in> {..bits}" "2 ^ j dvd s \<and> s + 2 ^ j - 1 \<le> e"
    show "j \<le> ?k"
    proof (rule ccontr)
      assume "\<not> j \<le> ?k"
      then have a: "bits - j < p" using j(1) by auto
      have b: "bits - ?tz \<le> bits - j" using tz(3) [of j] j by auto
      have "bits - (bits - j) = j" using j(1) by auto
      with p(4) [OF b a] j(2) show False by simp
    qed
  qed
  moreover have "bits - ?k = p" using p(2) by simp
  ultimately show ?thesis
    using p(5) by (intro exI [of _ ?k]) (simp add: findTheFirstLargestCidr_def)
qed

lemma largestFit_block:
  assumes "largestFit bits s e k"
  shows "LastIP bits \<lparr>netIP = s, netOnes = bits - k\<rparr> = s + 2 ^ k - 1"
    and "blockAddrs bits \<lparr>netIP = s, netOnes = bits - k\<rparr> = {s .. s + 2 ^ k - 1}"
proof -
  have k: "k \<le> bits" "2 ^ k dvd s" using assms by (auto simp: largestFit_def)
  then have "2 ^ (bits - (bits - k)) dvd s" by simp
  from aligned_block(2,3) [OF this] k(1)
  show "LastIP bits \<lparr>netIP = s, netOnes = bits - k\<rparr> = s + 2 ^ k - 1"
    and "blockAddrs bits \<lparr>netIP = s, netOnes = bits - k\<rparr> = {s .. s + 2 ^ k - 1}"
    by simp_all
qed

lemma splitLoop_chain:
  "s \<le> e \<Longrightarrow> \<exists>bs. splitLoop bits (Some s) e acc = Some (acc @ bs) \<and> greedyChain bits s e bs"
proof (induction "nat (e - s)" arbitrary: s acc rule: less_induct)
  case less
  from findTheFirstLargestCidr_spec [OF less.prems, of bits]
  obtain k where k: "largestFit bits s e k"
    "findTheFirstLargestCidr bits s e =
       (\<lparr>netIP = s, netOnes = bits - k\<rparr>, if s + 2 ^ k - 1 = e then None else Some (s + 2 ^ k))"
    by blast
  let ?b = "\<lparr>netIP = s, netOnes = bits - k\<rparr>"
  have kb: "k \<le> bits" using k(1) by (simp add: largestFit_def)
  have last: "LastIP bits ?b = s + 2 ^ k - 1" using largestFit_block(1) [OF k(1)] .
  have fit: "s + 2 ^ k - 1 \<le> e" using k(1) by (simp add: largestFit_def)
  show ?case
  proof (cases "s + 2 ^ k - 1 = e")
    case True
    have "splitLoop bits (Some s) e acc = Some (acc @ [?b])"
      by (subst splitLoop.simps, simp add: k(2) True, subst splitLoop.simps, simp)
    moreover have "greedyChain bits s e [?b]"
      using k(1) kb last True by simp
    ultimately show ?thesis by blast
  next
    case False
    then have lt: "s + 2 ^ k \<le> e" using fit by simp
    have "(0::int) < 2 ^ k" by simp
    then have m: "nat (e - (s + 2 ^ k)) < nat (e - s)" using lt by linarith
    from less.hyps [OF m lt, of "acc @ [?b]"]
    obtain bs where bs: "splitLoop bits (Some (s + 2 ^ k)) e (acc @ [?b]) = Some ((acc @ [?b]) @ bs)"
      "greedyChain bits (s + 2 ^ k) e bs" by blast
    have "splitLoop bits (Some s) e acc = Some (acc @ (?b # bs))"
      by (subst splitLoop.simps) (simp add: k(2) False bs(1))
    moreover have "greedyChain bits s e (?b # bs)"
      using k(1) kb last False bs(2) by (simp add: NextIP_def)
    ultimately show ?thesis by blast
  qed
qed

lemma greedyChain_cover:
  "greedyChain bits s e bs \<Longrightarrow>
   s \<le> e \<and> (\<Union>b \<in> set bs. blockAddrs bits b) = {s..e} \<and>
   sorted_wrt (\<lambda>a b. blockAddrs bits a \<inter> blockAddrs bits b = {}) bs"
proof (induction bs arbitrary: s)
  case Nil
  then show ?case by simp
next
  case (Cons b bs)
  let ?k = "bits - netOnes b"
  from Cons.prems have b: "netIP b = s" "netOnes b \<le> bits" "largestFit bits s e ?k"
    and rest: "if LastIP bits b = e then bs = [] else greedyChain bits (NextIP (LastIP bits b)) e bs"
    by simp_all
  have beq: "b = \<lparr>netIP = s, netOnes = bits - ?k\<rparr>" using b(1,2) by simp
  have last: "LastIP bits b = s + 2 ^ ?k - 1"
    and ba: "blockAddrs bits b = {s .. s + 2 ^ ?k - 1}"
    using largestFit_block [OF b(3)] beq by simp_all
  have fit: "s + 2 ^ ?k - 1 \<le> e" using b(3) by (simp add: largestFit_def)
  have pos: "(0::int) < 2 ^ ?k" by simp
  show ?case
  proof (cases "LastIP bits b = e")
    case True
    then have "bs = []" using rest by simp
    then show ?thesis using ba last True pos by auto
  next
    case False
    then have "greedyChain bits (s + 2 ^ ?k) e bs" using rest last by (simp add: NextIP_def)
    from Cons.IH [OF this]
    have ih: "s + 2 ^ ?k \<le> e" "(\<Union>b \<in> set bs. blockAddrs bits b) = {s + 2 ^ ?k..e}"
      "sorted_wrt (\<lambda>a b. blockAddrs bits a \<inter> blockAddrs bits b = {}) bs" by simp_all
    define m where "m = s + 2 ^ ?k"
    have ge: "s < m" using pos by (simp add: m_def)
    have "m \<le> e" using ih(1) by (simp add: m_def)
    with ge have "{s .. m - 1} \<union> {m..e} = {s..e}" by auto
    then have "{s .. s + 2 ^ ?k - 1} \<union> {s + 2 ^ ?k..e} = {s..e}" by (simp add: m_def)
    then have un: "(\<Union>b \<in> set (b # bs). blockAddrs bits b) = {s..e}"
      using ih(2) ba by simp
    have dj: "\<forall>c \<in> set bs. blockAddrs bits b \<inter> blockAddrs bits c = {}"
    proof
      fix c assume "c \<in> set bs"
      then have "blockAddrs bits c \<subseteq> {s + 2 ^ ?k..e}" using ih(2) by blast
      then show "blockAddrs bits b \<inter> blockAddrs bits c = {}" using ba by auto
    qed
    have "s \<le> e" using ge \<open>m \<le> e\<close> by simp
    then show ?thesis using un dj ih(3) by simp
  qed
qed

lemma blockAddrs_div:
  "a \<in> blockAddrs bits c \<longleftrightarrow> a div 2 ^ (bits - netOnes c) = netIP c div 2 ^ (bits - netOnes c)"
  by (simp add: blockAddrs_def Contains_iff)

lemma div_pow2_coarser:
  fixes x y :: int
  assumes "j \<le> k" "x div 2 ^ j = y div 2 ^ j"
  shows "x div 2 ^ k = y div 2 ^ k"
proof -
  have e: "(2::int) ^ k = 2 ^ j * 2 ^ (k - j)"
    using assms(1) by (simp flip: power_add)
  have "x div 2 ^ k = (x div 2 ^ j) div 2 ^ (k - j)"
    unfolding e by (rule zdiv_zmult2_eq) simp
  also have "\<dots> = (y div 2 ^ j) div 2 ^ (k - j)" using assms(2) by simp
  also have "\<dots> = y div 2 ^ k"
    unfolding e by (rule zdiv_zmult2_eq [symmetric]) simp
  finally show ?thesis .
qed

lemma aligned_interval_div:
  fixes s :: int
  assumes "2 ^ k dvd s"
  shows "a \<in> {s .. s + 2 ^ k - 1} \<longleftrightarrow> a div 2 ^ k = s div 2 ^ k"
proof -
  have "s div 2 ^ k * 2 ^ k = s" using assms by simp
  then show ?thesis
    using div_eq_iff_interval [of "2 ^ k" a "s div 2 ^ k"] by simp
qed

lemma block_within_greedy:
  assumes G: "largestFit bits s e k"
    and c: "blockAddrs bits c \<subseteq> {s..e}"
    and x: "x \<in> blockAddrs bits c" "x \<in> {s .. s + 2 ^ k - 1}"
  shows "blockAddrs bits c \<subseteq> {s .. s + 2 ^ k - 1}"
proof -
  let ?j = "bits - netOnes c"
  have dv: "2 ^ k dvd s" and mx: "\<And>j. j \<le> bits \<Longrightarrow> 2 ^ j dvd s \<Longrightarrow> s + 2 ^ j - 1 \<le> e \<Longrightarrow> j \<le> k"
    using G by (auto simp: largestFit_def)
  have xs: "x div 2 ^ k = s div 2 ^ k" using x(2) aligned_interval_div [OF dv] by blast
  have xc: "x div 2 ^ ?j = netIP c div 2 ^ ?j" using x(1) by (simp add: blockAddrs_div)
  have jk: "?j \<le> k"
  proof (rule ccontr)
    assume "\<not> ?j \<le> k"
    then have kj: "k \<le> ?j" by simp
    have "s div 2 ^ ?j = x div 2 ^ ?j"
      using div_pow2_coarser [OF kj xs] by simp
    then have sc: "s \<in> blockAddrs bits c" using xc by (simp add: blockAddrs_div)
    let ?b0 = "maskIP (netOnes c) bits (netIP c)"
    have iv: "blockAddrs bits c = {?b0 .. LastIP bits c}" by (rule blockAddrs_interval)
    have "?b0 \<le> LastIP bits c" by (simp add: LastIP_def)
    then have "?b0 \<in> blockAddrs bits c" "LastIP bits c \<in> blockAddrs bits c"
      using iv by auto
    then have "s \<le> ?b0" "LastIP bits c \<le> e" using c by auto
    moreover have "?b0 \<le> s" using sc iv by auto
    ultimately have b0: "?b0 = s" and le: "s + 2 ^ ?j - 1 \<le> e"
      by (auto simp: LastIP_def)
    have "2 ^ ?j dvd ?b0" by (simp add: maskIP_div)
    then have "2 ^ ?j dvd s" using b0 by simp
    from mx [OF _ this le] have "?j \<le> k" by simp
    with \<open>\<not> ?j \<le> k\<close> show False by simp
  qed
  show ?thesis
  proof
    fix y assume "y \<in> blockAddrs bits c"
    then have "y div 2 ^ ?j = x div 2 ^ ?j" using xc by (simp add: blockAddrs_div)
    from div_pow2_coarser [OF jk this] xs
    have "y div 2 ^ k = s div 2 ^ k" by simp
    then show "y \<in> {s .. s + 2 ^ k - 1}" using aligned_interval_div [OF dv] by blast
  qed
qed

lemma greedyChain_minimal:
  "greedyChain bits s e bs \<Longrightarrow> (\<Union>c \<in> set cs. blockAddrs bits c) = {s..e} \<Longrightarrow>
   length bs \<le> length cs"
proof (induction bs arbitrary: s cs)
  case Nil
  then show ?case by simp
next
  case (Cons b bs)
  let ?k = "bits - netOnes b"
  let ?G = "{s .. s + 2 ^ ?k - 1}"
  from Cons.prems(1) have b: "netIP b = s" "netOnes b \<le> bits" "largestFit bits s e ?k"
    and rest: "if LastIP bits b = e then bs = [] else greedyChain bits (NextIP (LastIP bits b)) e bs"
    by simp_all
  have beq: "b = \<lparr>netIP = s, netOnes = bits - ?k\<rparr>" using b(1,2) by simp
  have last: "LastIP bits b = s + 2 ^ ?k - 1"
    using largestFit_block(1) [OF b(3)] beq by simp
  have fit: "s + 2 ^ ?k - 1 \<le> e" using b(3) by (simp add: largestFit_def)
  define m where "m = s + 2 ^ ?k"
  have sm: "s < m" by (simp add: m_def)
  have G: "?G = {s .. m - 1}" by (simp add: m_def)
  have "m - 1 \<le> e" using fit by (simp add: m_def)
  with sm have se: "s \<in> {s..e}" by simp
  then obtain c0 where c0: "c0 \<in> set cs" "s \<in> blockAddrs bits c0"
    using Cons.prems(2) by blast
  have sub: "\<And>c. c \<in> set cs \<Longrightarrow> blockAddrs bits c \<subseteq> {s..e}"
    using Cons.prems(2) by blast
  show ?case
  proof (cases "LastIP bits b = e")
    case True
    then have "bs = []" using rest by simp
    moreover have "cs \<noteq> []" using c0(1) by auto
    ultimately show ?thesis by (cases cs) simp_all
  next
    case False
    then have ch: "greedyChain bits m e bs" using rest last by (simp add: NextIP_def m_def)
    let ?out = "filter (\<lambda>c. blockAddrs bits c \<inter> ?G = {}) cs"
    let ?in = "filter (\<lambda>c. \<not> blockAddrs bits c \<inter> ?G = {}) cs"
    have inG: "blockAddrs bits c \<subseteq> ?G" if "c \<in> set ?in" for c
    proof -
      from that have "blockAddrs bits c \<inter> ?G \<noteq> {}" by simp
      then obtain x where x: "x \<in> blockAddrs bits c" "x \<in> ?G" by blast
      from that have "c \<in> set cs" by simp
      from block_within_greedy [OF b(3) sub [OF this] x] show ?thesis .
    qed
    have "s \<in> ?G" using sm G by simp
    then have "blockAddrs bits c0 \<inter> ?G \<noteq> {}" using c0(2) by blast
    then have "c0 \<in> set ?in" using c0(1) by simp
    then have "length ?in \<noteq> 0" by (metis length_0_conv empty_iff empty_set)
    then have inpos: "1 \<le> length ?in" by arith
    have un: "(\<Union>c \<in> set ?out. blockAddrs bits c) = {m..e}"
    proof (intro equalityI subsetI)
      fix a assume "a \<in> (\<Union>c \<in> set ?out. blockAddrs bits c)"
      then obtain c where "c \<in> set ?out" "a \<in> blockAddrs bits c" by blast
      then have c: "c \<in> set cs" "blockAddrs bits c \<inter> ?G = {}" "a \<in> blockAddrs bits c"
        by simp_all
      have "a \<in> {s..e}" using sub [OF c(1)] c(3) by blast
      moreover have "a \<notin> {s .. m - 1}" using c(2,3) G by blast
      ultimately show "a \<in> {m..e}" by auto
    next
      fix a assume a: "a \<in> {m..e}"
      then have "a \<in> {s..e}" using sm by auto
      then obtain c where c: "c \<in> set cs" "a \<in> blockAddrs bits c"
        using Cons.prems(2) by blast
      have "a \<notin> {s .. m - 1}" using a by auto
      then have "\<not> blockAddrs bits c \<subseteq> ?G" using c(2) G by blast
      then have "c \<notin> set ?in" using inG by blast
      then have "c \<in> set ?out" using c(1) by simp
      then show "a \<in> (\<Union>c \<in> set ?out. blockAddrs bits c)" using c(2) by blast
    qed
    from Cons.IH [OF ch un] have "length bs \<le> length ?out" .
    moreover have "length cs = length ?in + length ?out"
      using sum_length_filter_compl [of "\<lambda>c. \<not> blockAddrs bits c \<inter> ?G = {}" cs] by simp
    ultimately show ?thesis using inpos by simp
  qed
qed

lemma find_step:
  assumes "s \<le> e"
  shows "s \<le> LastIP bits (fst (findTheFirstLargestCidr bits s e)) \<and>
         LastIP bits (fst (findTheFirstLargestCidr bits s e)) \<le> e \<and>
         (snd (findTheFirstLargestCidr bits s e) = None \<longleftrightarrow>
            LastIP bits (fst (findTheFirstLargestCidr bits s e)) = e) \<and>
         (\<forall>s'. snd (findTheFirstLargestCidr bits s e) = Some s' \<longrightarrow>
            s' = NextIP (LastIP bits (fst (findTheFirstLargestCidr bits s e))) \<and> s < s' \<and> s' \<le> e)"
proof -
  from findTheFirstLargestCidr_spec [OF assms, of bits]
  obtain k where k: "largestFit bits s e k"
    "findTheFirstLargestCidr bits s e =
       (\<lparr>netIP = s, netOnes = bits - k\<rparr>, if s + 2 ^ k - 1 = e then None else Some (s + 2 ^ k))"
    by blast
  have last: "LastIP bits \<lparr>netIP = s, netOnes = bits - k\<rparr> = s + 2 ^ k - 1"
    using largestFit_block(1) [OF k(1)] .
  have fit: "s + 2 ^ k - 1 \<le> e" using k(1) by (simp add: largestFit_def)
  define m where "m = s + (2::int) ^ k"
  have sm: "s < m" by (simp add: m_def)
  have "m - 1 \<le> e" using fit by (simp add: m_def)
  then show ?thesis
    unfolding k(2) using sm by (auto simp: last NextIP_def m_def [symmetric])
qed

text \<open>
  C2. For a range with \<open>start \<le> end\<close>, \<open>splitIPRangeToIPBlocks\<close> returns blocks that are
  pairwise disjoint, whose union is exactly the interval from \<open>start\<close> to \<open>end\<close>, each
  anchored at the current start address with the largest size that the alignment of that
  address permits without extending past \<open>end\<close>; and no list of CIDR blocks with the same
  union is shorter.
\<close>

theorem splitIPRangeToIPBlocks_greedy_minimal:
  "start ir \<le> endip ir \<Longrightarrow>
   \<exists>bs. splitIPRangeToIPBlocks bits ir = Some bs \<and>
     (\<forall>i j. i < j \<and> j < length bs \<longrightarrow> blockAddrs bits (bs ! i) \<inter> blockAddrs bits (bs ! j) = {}) \<and>
     (\<Union>b \<in> set bs. blockAddrs bits b) = rangeAddrs ir \<and>
     greedyChain bits (start ir) (endip ir) bs \<and>
     (\<forall>cs. (\<Union>c \<in> set cs. blockAddrs bits c) = rangeAddrs ir \<longrightarrow> length bs \<le> length cs)"
proof -
  assume le: "start ir \<le> endip ir"
  from splitLoop_chain [OF le, of bits "[]"]
  obtain bs where bs: "splitIPRangeToIPBlocks bits ir = Some bs"
    "greedyChain bits (start ir) (endip ir) bs"
    by (auto simp: splitIPRangeToIPBlocks_def)
  from greedyChain_cover [OF bs(2)]
  have cov: "(\<Union>b \<in> set bs. blockAddrs bits b) = rangeAddrs ir"
    and dj: "sorted_wrt (\<lambda>a b. blockAddrs bits a \<inter> blockAddrs bits b = {}) bs"
    by (simp_all add: rangeAddrs_def)
  have "\<forall>i j. i < j \<and> j < length bs \<longrightarrow> blockAddrs bits (bs ! i) \<inter> blockAddrs bits (bs ! j) = {}"
    using dj by (simp add: sorted_wrt_iff_nth_less)
  moreover have "\<forall>cs. (\<Union>c \<in> set cs. blockAddrs bits c) = rangeAddrs ir \<longrightarrow> length bs \<le> length cs"
    using greedyChain_minimal [OF bs(2)] by (simp add: rangeAddrs_def)
  ultimately show ?thesis using bs cov by blast
qed

lemma split_10_20:
  "splitIPRangeToIPBlocks 8 \<lparr>start = 10, endip = 20\<rparr> =
     Some [\<lparr>netIP = 10, netOnes = 7\<rparr>, \<lparr>netIP = 12, netOnes = 6\<rparr>,
           \<lparr>netIP = 16, netOnes = 6\<rparr>, \<lparr>netIP = 20, netOnes = 8\<rparr>]"
  by code_simp

theorem splitIPRangeToIPBlocks_greedy_minimal_witness:
  "splitIPRangeToIPBlocks 8 \<lparr>start = 10, endip = 20\<rparr> =
     Some [\<lparr>netIP = 10, netOnes = 7\<rparr>, \<lparr>netIP = 12, netOnes = 6\<rparr>,
           \<lparr>netIP = 16, netOnes = 6\<rparr>, \<lparr>netIP = 20, netOnes = 8\<rparr>] \<and>
   \<not> (\<exists>cs. (\<Union>c \<in> set cs. blockAddrs 8 c) = {10..20} \<and> length cs < 4)"
proof -
  have le: "start \<lparr>start = 10, endip = 20\<rparr> \<le> endip \<lparr>start = 10, endip = 20\<rparr>" by simp
  from splitIPRangeToIPBlocks_greedy_minimal [OF le, of 8]
  obtain bs where bs: "splitIPRangeToIPBlocks 8 \<lparr>start = 10, endip = 20\<rparr> = Some bs"
    "\<forall>cs. (\<Union>c \<in> set cs. blockAddrs 8 c) = rangeAddrs \<lparr>start = 10, endip = 20\<rparr>
       \<longrightarrow> length bs \<le> length cs"
    by blast
  from bs(1) have "length bs = 4" by (auto simp: split_10_20)
  with bs(2) have "\<forall>cs. (\<Union>c \<in> set cs. blockAddrs 8 c) = {10..20} \<longrightarrow> 4 \<le> length cs"
    by (simp add: rangeAddrs_def)
  then have "\<not> (\<exists>cs. (\<Union>c \<in> set cs. blockAddrs 8 c) = {10..20} \<and> length cs < 4)"
    by (metis not_less)
  then show ?thesis by (simp add: split_10_20)
qed

text \<open>
  C10. For a range with \<open>start \<le> end\<close>, \<open>splitIPRangeToIPBlocks\<close> returns. Every call of
  \<open>findTheFirstLargestCidr\<close> with a start address inside the range returns a block whose
  last address does not exceed \<open>end\<close>; the next start address is the one just past the
  block, strictly greater than the current one and not past \<open>end\<close>; and the loop stops
  (the next start is nil) exactly when the block's last address is \<open>end\<close>.
\<close>

theorem splitIPRangeToIPBlocks_terminates:
  "start ir \<le> endip ir \<Longrightarrow>
   (\<exists>bs. splitIPRangeToIPBlocks bits ir = Some bs) \<and>
   (\<forall>s. start ir \<le> s \<and> s \<le> endip ir \<longrightarrow>
      s \<le> LastIP bits (fst (findTheFirstLargestCidr bits s (endip ir))) \<and>
      LastIP bits (fst (findTheFirstLargestCidr bits s (endip ir))) \<le> endip ir \<and>
      (snd (findTheFirstLargestCidr bits s (endip ir)) = None \<longleftrightarrow>
         LastIP bits (fst (findTheFirstLargestCidr bits s (endip ir))) = endip ir) \<and>
      (\<forall>s'. snd (findTheFirstLargestCidr bits s (endip ir)) = Some s' \<longrightarrow>
         s' = NextIP (LastIP bits (fst (findTheFirstLargestCidr bits s (endip ir)))) \<and>
         s < s' \<and> s' \<le> endip ir))"
proof -
  assume le: "start ir \<le> endip ir"
  from splitLoop_chain [OF le, of bits "[]"]
  have "\<exists>bs. splitIPRangeToIPBlocks bits ir = Some bs"
    by (auto simp: splitIPRangeToIPBlocks_def)
  then show ?thesis using find_step [of _ "endip ir" bits] by blast
qed

theorem splitIPRangeToIPBlocks_terminates_witness:
  "(\<exists>bs. splitIPRangeToIPBlocks 32 \<lparr>start = 10, endip = 20\<rparr> = Some bs) \<and>
   findTheFirstLargestCidr 32 12 20 = (\<lparr>netIP = 12, netOnes = 30\<rparr>, Some 16) \<and>
   LastIP 32 \<lparr>netIP = 12, netOnes = 30\<rparr> = 15"
proof -
  have "findTheFirstLargestCidr 32 12 20 = (\<lparr>netIP = 12, netOnes = 30\<rparr>, Some 16)"
    by code_simp
  moreover have "LastIP 32 \<lparr>netIP = 12, netOnes = 30\<rparr> = 15"
    by (simp add: LastIP_def maskIP_def)
  ultimately show ?thesis
    using splitIPRangeToIPBlocks_terminates [of "\<lparr>start = 10, endip = 20\<rparr>" 32] by simp
qed

lemma CreateIPRange_Some:
  "CreateIPRange (Some a) (Some b) = Inr (if b < a then None else Some \<lparr>start = a, endip = b\<rparr>)"
  by (simp add: CreateIPRange_def Cmp_def)

lemma excludeRangesLoop_error_iff:
  "(\<exists>err. excludeRangesLoop cs ce idx xs acc = Inl err) \<longleftrightarrow>
     (\<exists>r \<in> set xs. start r < cs \<or> ce < endip r) \<or> consecOverlap xs"
proof (induction xs arbitrary: idx acc)
  case Nil
  then show ?case by simp
next
  case (Cons cur rest)
  show ?case
  proof (cases rest)
    case Nil
    then show ?thesis
      by (simp add: CreateIPRange_Some Cmp_def PrevIP_def NextIP_def)
  next
    case (Cons nxt rest')
    have ih: "\<And>idx acc. (\<exists>err. excludeRangesLoop cs ce idx (nxt # rest') acc = Inl err) \<longleftrightarrow>
       (\<exists>r \<in> set (nxt # rest'). start r < cs \<or> ce < endip r) \<or> consecOverlap (nxt # rest')"
      using Cons.IH Cons by simp
    show ?thesis
      unfolding Cons
      apply (subst excludeRangesLoop.simps)
      apply (simp only: CreateIPRange_Some sum.case if_distrib [of "case_sum _ _"] ih
             split: if_splits)
      apply (auto simp: Cmp_def ih)
      done
  qed
qed

lemma separated_of_no_consecOverlap:
  "\<forall>r \<in> set xs. start r \<le> endip r \<Longrightarrow> \<not> consecOverlap xs \<Longrightarrow>
   sorted_wrt (\<lambda>a b. endip a < start b) xs"
proof (induction xs rule: consecOverlap.induct)
  case 1
  then show ?case by simp
next
  case (2 x)
  then show ?case by simp
next
  case (3 x y rest)
  then have sep: "sorted_wrt (\<lambda>a b. endip a < start b) (y # rest)" and xy: "endip x < start y"
    and vy: "start y \<le> endip y"
    by simp_all
  have "\<forall>z \<in> set rest. endip x < start z"
  proof
    fix z assume "z \<in> set rest"
    then have "endip y < start z" using sep by simp
    then show "endip x < start z" using xy vy by simp
  qed
  then show ?case using sep xy by simp
qed

lemma consecOverlap_pair:
  "consecOverlap xs \<Longrightarrow> \<exists>i. Suc i < length xs \<and> start (xs ! Suc i) \<le> endip (xs ! i)"
proof (induction xs rule: consecOverlap.induct)
  case 1
  then show ?case by simp
next
  case (2 x)
  then show ?case by simp
next
  case (3 x y rest)
  show ?case
  proof (cases "start y \<le> endip x")
    case True
    then show ?thesis by (intro exI [of _ 0]) simp
  next
    case False
    then have "consecOverlap (y # rest)" using "3.prems" by simp
    from "3.IH" [OF this] obtain i where "Suc i < length (y # rest)"
      "start ((y # rest) ! Suc i) \<le> endip ((y # rest) ! i)" by blast
    then show ?thesis by (intro exI [of _ "Suc i"]) simp
  qed
qed

lemma overlapping_set:
  assumes "\<forall>r \<in> set rs. start r \<le> endip r"
  shows "overlapping rs \<longleftrightarrow>
    \<not> distinct rs \<or> (\<exists>r1 \<in> set rs. \<exists>r2 \<in> set rs. r1 \<noteq> r2 \<and> rangeAddrs r1 \<inter> rangeAddrs r2 \<noteq> {})"
proof
  assume "overlapping rs"
  then obtain i j where ij: "i < j" "j < length rs" "rangeAddrs (rs ! i) \<inter> rangeAddrs (rs ! j) \<noteq> {}"
    by (auto simp: overlapping_def)
  show "\<not> distinct rs \<or> (\<exists>r1 \<in> set rs. \<exists>r2 \<in> set rs. r1 \<noteq> r2 \<and> rangeAddrs r1 \<inter> rangeAddrs r2 \<noteq> {})"
  proof (cases "rs ! i = rs ! j")
    case True
    moreover have "i < length rs" "i \<noteq> j" using ij(1,2) by simp_all
    ultimately have "\<not> distinct rs" using ij(2) unfolding distinct_conv_nth by blast
    then show ?thesis by simp
  next
    case False
    moreover have "rs ! i \<in> set rs" "rs ! j \<in> set rs" using ij(1,2) by simp_all
    ultimately show ?thesis using ij(3) by blast
  qed
next
  assume h: "\<not> distinct rs \<or> (\<exists>r1 \<in> set rs. \<exists>r2 \<in> set rs. r1 \<noteq> r2 \<and> rangeAddrs r1 \<inter> rangeAddrs r2 \<noteq> {})"
  have sym: "\<exists>i j. i < j \<and> j < length rs \<and> rangeAddrs (rs ! i) \<inter> rangeAddrs (rs ! j) \<noteq> {}"
    if "i < length rs" "j < length rs" "i \<noteq> j" "rangeAddrs (rs ! i) \<inter> rangeAddrs (rs ! j) \<noteq> {}" for i j
  proof (cases "i < j")
    case True
    then show ?thesis using that by blast
  next
    case False
    then have "j < i" using that(3) by simp
    moreover have "rangeAddrs (rs ! j) \<inter> rangeAddrs (rs ! i) \<noteq> {}" using that(4) by blast
    ultimately show ?thesis using that(1) by blast
  qed
  from h show "overlapping rs"
  proof
    assume "\<not> distinct rs"
    then obtain i j where ij: "i < length rs" "j < length rs" "i \<noteq> j" "rs ! i = rs ! j"
      by (auto simp: distinct_conv_nth)
    have "start (rs ! i) \<in> rangeAddrs (rs ! i)"
      using assms ij(1) by (simp add: rangeAddrs_def)
    then have "rangeAddrs (rs ! i) \<inter> rangeAddrs (rs ! j) \<noteq> {}" using ij(4) by auto
    from sym [OF ij(1,2,3) this] show ?thesis by (simp add: overlapping_def)
  next
    assume "\<exists>r1 \<in> set rs. \<exists>r2 \<in> set rs. r1 \<noteq> r2 \<and> rangeAddrs r1 \<inter> rangeAddrs r2 \<noteq> {}"
    then obtain r1 r2 where r: "r1 \<in> set rs" "r2 \<in> set rs" "r1 \<noteq> r2"
      "rangeAddrs r1 \<inter> rangeAddrs r2 \<noteq> {}" by blast
    then obtain i j where ij: "i < length rs" "rs ! i = r1" "j < length rs" "rs ! j = r2"
      by (auto simp: in_set_conv_nth)
    then have "i \<noteq> j" using r(3) by auto
    from sym [OF ij(1) ij(3) this] r(4) ij(2,4) show ?thesis by (simp add: overlapping_def)
  qed
qed

lemma overlapping_sort:
  assumes "\<forall>r \<in> set rs. start r \<le> endip r"
  shows "overlapping (sort_key start rs) \<longleftrightarrow> overlapping rs"
proof -
  have "\<forall>r \<in> set (sort_key start rs). start r \<le> endip r" using assms by simp
  from overlapping_set [OF this] overlapping_set [OF assms]
  show ?thesis by simp
qed

lemma consecOverlap_sorted_iff:
  assumes v: "\<forall>r \<in> set xs. start r \<le> endip r" and s: "sorted (map start xs)"
  shows "consecOverlap xs \<longleftrightarrow> overlapping xs"
proof
  assume "consecOverlap xs"
  from consecOverlap_pair [OF this] obtain i where i: "Suc i < length xs"
    "start (xs ! Suc i) \<le> endip (xs ! i)" by blast
  have "start (xs ! i) \<le> start (xs ! Suc i)"
    using s i(1) sorted_nth_mono [of "map start xs" i "Suc i"] by simp
  moreover have "start (xs ! Suc i) \<le> endip (xs ! Suc i)" using v i(1) by simp
  ultimately have "start (xs ! Suc i) \<in> rangeAddrs (xs ! i) \<inter> rangeAddrs (xs ! Suc i)"
    using i(2) by (simp add: rangeAddrs_def)
  then show "overlapping xs" using i(1) unfolding overlapping_def
    by (intro exI [of _ i] exI [of _ "Suc i"]) auto
next
  assume o: "overlapping xs"
  show "consecOverlap xs"
  proof (rule ccontr)
    assume "\<not> consecOverlap xs"
    from separated_of_no_consecOverlap [OF v this]
    have sep: "sorted_wrt (\<lambda>a b. endip a < start b) xs" .
    from o obtain i j where ij: "i < j" "j < length xs"
      "rangeAddrs (xs ! i) \<inter> rangeAddrs (xs ! j) \<noteq> {}"
      by (auto simp: overlapping_def)
    have "endip (xs ! i) < start (xs ! j)"
      using sep ij(1,2) by (simp add: sorted_wrt_iff_nth_less)
    then have "rangeAddrs (xs ! i) \<inter> rangeAddrs (xs ! j) = {}"
      by (auto simp: rangeAddrs_def)
    with ij(3) show False by simp
  qed
qed

lemma excludeRangesLoop_valid:
  "\<forall>g \<in> set acc. start g \<le> endip g \<Longrightarrow> excludeRangesLoop cs ce idx xs acc = Inr G \<Longrightarrow>
   \<forall>g \<in> set G. start g \<le> endip g"
proof (induction xs arbitrary: idx acc)
  case Nil
  then show ?case by simp
next
  case (Cons cur rest)
  let ?b = "if idx = 0 then CreateIPRange (Some cs) (Some (PrevIP (start cur))) else Inr None"
  let ?a = "CreateIPRange (Some (NextIP (endip cur)))
              (Some (if rest = [] then ce else PrevIP (start (hd rest))))"
  obtain gb where gb: "?b = Inr gb" "\<forall>g \<in> set_option gb. start g \<le> endip g"
    by (cases "idx = 0") (auto simp: CreateIPRange_Some)
  obtain ga where ga: "?a = Inr ga" "\<forall>g \<in> set_option ga. start g \<le> endip g"
    by (auto simp: CreateIPRange_Some)
  let ?acc = "acc @ (case gb of None \<Rightarrow> [] | Some r \<Rightarrow> [r]) @ (case ga of None \<Rightarrow> [] | Some r \<Rightarrow> [r])"
  have v: "\<forall>g \<in> set ?acc. start g \<le> endip g"
    using Cons.prems(1) gb(2) ga(2) by (auto split: option.splits)
  have "excludeRangesLoop cs ce (Suc idx) rest ?acc = Inr G"
    using Cons.prems(2) gb(1) ga(1)
    by (subst (asm) excludeRangesLoop.simps) (simp split: if_splits)
  from Cons.IH [OF v this] show ?case .
qed

lemma TryAddIP_valid:
  "start ir \<le> endip ir \<Longrightarrow> start (snd (TryAddIP ir ip)) \<le> endip (snd (TryAddIP ir ip))"
  by (auto simp: TryAddIP_def PrevIP_def NextIP_def split: option.splits)

lemma tryAddToRanges_valid:
  "\<forall>g \<in> set L. start g \<le> endip g \<Longrightarrow> tryAddToRanges L ip = Some L' \<Longrightarrow>
   \<forall>g \<in> set L'. start g \<le> endip g"
proof (induction L arbitrary: L')
  case Nil
  then show ?case by simp
next
  case (Cons g L)
  show ?case
  proof (cases "fst (TryAddIP g ip)")
    case True
    then have "L' = snd (TryAddIP g ip) # L" using Cons.prems(2) by simp
    then show ?thesis using Cons.prems(1) TryAddIP_valid [of g ip] by simp
  next
    case False
    then obtain L2 where "tryAddToRanges L ip = Some L2" "L' = g # L2"
      using Cons.prems(2) by auto
    then show ?thesis using Cons.IH [of L2] Cons.prems(1) by simp
  qed
qed

lemma addExcludedIPs_valid:
  "\<forall>g \<in> set L. start g \<le> endip g \<Longrightarrow> addExcludedIPs L ips = Inr L' \<Longrightarrow>
   \<forall>g \<in> set L'. start g \<le> endip g"
proof (induction ips arbitrary: L)
  case Nil
  then show ?case by simp
next
  case (Cons ip ips)
  show ?case
  proof (cases "tryAddToRanges L ip")
    case (Some L2)
    then have "addExcludedIPs L2 ips = Inr L'" using Cons.prems(2) by simp
    from Cons.IH [OF tryAddToRanges_valid [OF Cons.prems(1) Some] this] show ?thesis .
  next
    case None
    show ?thesis
    proof (cases ip)
      case n: None
      then show ?thesis using Cons.prems(2) None by (simp add: CreateIPRange_def)
    next
      case (Some a)
      then have "addExcludedIPs (L @ [\<lparr>start = a, endip = a\<rparr>]) ips = Inr L'"
        using Cons.prems(2) None by (simp add: CreateIPRange_Some)
      moreover have "\<forall>g \<in> set (L @ [\<lparr>start = a, endip = a\<rparr>]). start g \<le> endip g"
        using Cons.prems(1) by simp
      ultimately show ?thesis using Cons.IH by blast
    qed
  qed
qed

lemma addExcludedIPs_no_error:
  "None \<notin> set ips \<Longrightarrow> \<exists>L'. addExcludedIPs L ips = Inr L'"
proof (induction ips arbitrary: L)
  case Nil
  then show ?case by simp
next
  case (Cons ip ips)
  then obtain a where a: "ip = Some a" by (cases ip) auto
  have n: "None \<notin> set ips" using Cons.prems by simp
  show ?case
  proof (cases "tryAddToRanges L ip")
    case (Some L2)
    then show ?thesis using Cons.IH [OF n, of L2] by simp
  next
    case None
    then show ?thesis
      using Cons.IH [OF n, of "L @ [\<lparr>start = a, endip = a\<rparr>]"] a
      by (simp add: CreateIPRange_Some)
  qed
qed

lemma splitAll_total:
  "\<forall>g \<in> set L. start g \<le> endip g \<Longrightarrow> \<exists>bs. splitAll bits L = Some bs"
proof (induction L)
  case Nil
  then show ?case by simp
next
  case (Cons g L)
  then have "start g \<le> endip g" by simp
  from splitLoop_chain [OF this, of bits "[]"]
  obtain bs where "splitIPRangeToIPBlocks bits g = Some bs"
    by (auto simp: splitIPRangeToIPBlocks_def)
  moreover obtain bs' where "splitAll bits L = Some bs'" using Cons by auto
  ultimately show ?case by simp
qed

text \<open>
  C3, as the code has it. Provided every included range has \<open>start \<le> end\<close> and no excluded
  address is nil, \<open>FindSubnetExcludeIPBlocks\<close> returns, and it returns an error exactly when
  some included range extends outside \<open>cidr\<close> or two included ranges share an address.
  Ranges that are adjacent with no gap are accepted: the empty contribution between them
  has \<open>start > end\<close>, for which \<open>CreateIPRange\<close> yields no object and no error.
\<close>

theorem FindSubnetExcludeIPBlocks_error_iff:
  "\<forall>r \<in> set includedRanges. start r \<le> endip r \<Longrightarrow> None \<notin> set excludeIPs \<Longrightarrow>
   (\<exists>res. FindSubnetExcludeIPBlocks bits cidr includedRanges gateway excludeIPs = Some res) \<and>
   ((\<exists>err. FindSubnetExcludeIPBlocks bits cidr includedRanges gateway excludeIPs = Some (Inl err)) \<longleftrightarrow>
      (\<exists>r \<in> set includedRanges. start r < netIP cidr \<or> LastIP bits cidr < endip r) \<or>
      (\<exists>i j. i < j \<and> j < length includedRanges \<and>
         rangeAddrs (includedRanges ! i) \<inter> rangeAddrs (includedRanges ! j) \<noteq> {})) \<and>
   (\<forall>a b. b < a \<longrightarrow> CreateIPRange (Some a) (Some b) = Inr None)"
proof -
  assume v: "\<forall>r \<in> set includedRanges. start r \<le> endip r" and nn: "None \<notin> set excludeIPs"
  let ?xs = "sort_key start includedRanges"
  let ?ips = "excludeIPs @ (case gateway of None \<Rightarrow> [] | Some g \<Rightarrow> [Some g])"
  let ?cond = "(\<exists>r \<in> set includedRanges. start r < netIP cidr \<or> LastIP bits cidr < endip r) \<or>
      overlapping includedRanges"
  have vx: "\<forall>r \<in> set ?xs. start r \<le> endip r" using v by simp
  have sx: "sorted (map start ?xs)" by (rule sorted_sort_key)
  have e1: "(\<exists>err. excludeRangesLoop (netIP cidr) (LastIP bits cidr) 0 ?xs [] = Inl err) \<longleftrightarrow> ?cond"
    unfolding excludeRangesLoop_error_iff consecOverlap_sorted_iff [OF vx sx]
      overlapping_sort [OF v] by simp
  have nn': "None \<notin> set ?ips" using nn by (simp split: option.splits)
  have main: "(\<exists>res. FindSubnetExcludeIPBlocks bits cidr includedRanges gateway excludeIPs = Some res) \<and>
   ((\<exists>err. FindSubnetExcludeIPBlocks bits cidr includedRanges gateway excludeIPs = Some (Inl err)) \<longleftrightarrow> ?cond)"
  proof (cases "excludeRangesLoop (netIP cidr) (LastIP bits cidr) 0 ?xs []")
    case (Inl err)
    then have "FindSubnetExcludeIPBlocks bits cidr includedRanges gateway excludeIPs = Some (Inl err)"
      by (simp add: FindSubnetExcludeIPBlocks_def)
    moreover have ?cond using e1 Inl by blast
    ultimately show ?thesis by simp
  next
    case (Inr G)
    then have nc: "\<not> ?cond" using e1 by simp
    have vG: "\<forall>g \<in> set G. start g \<le> endip g"
      using excludeRangesLoop_valid [OF _ Inr] by simp
    from addExcludedIPs_no_error [OF nn', of G] obtain L where L: "addExcludedIPs G ?ips = Inr L" ..
    from splitAll_total [OF addExcludedIPs_valid [OF vG L], of bits]
    obtain bs where "splitAll bits L = Some bs" ..
    then have "FindSubnetExcludeIPBlocks bits cidr includedRanges gateway excludeIPs = Some (Inr bs)"
      using Inr L by (simp add: FindSubnetExcludeIPBlocks_def)
    then show ?thesis using nc by simp
  qed
  then show ?thesis by (simp add: overlapping_def CreateIPRange_Some)
qed

lemma adjacent_ranges_accepted:
  "FindSubnetExcludeIPBlocks 8 \<lparr>netIP = 0, netOnes = 0\<rparr>
     [\<lparr>start = 1, endip = 5\<rparr>, \<lparr>start = 6, endip = 10\<rparr>] None [] =
   Some (Inr [\<lparr>netIP = 0, netOnes = 8\<rparr>, \<lparr>netIP = 11, netOnes = 8\<rparr>,
        \<lparr>netIP = 12, netOnes = 6\<rparr>, \<lparr>netIP = 16, netOnes = 4\<rparr>,
        \<lparr>netIP = 32, netOnes = 3\<rparr>, \<lparr>netIP = 64, netOnes = 2\<rparr>,
        \<lparr>netIP = 128, netOnes = 1\<rparr>])"
  by code_simp

theorem FindSubnetExcludeIPBlocks_error_iff_witness:
  "(\<exists>err. FindSubnetExcludeIPBlocks 8 \<lparr>netIP = 0, netOnes = 0\<rparr>
      [\<lparr>start = 1, endip = 5\<rparr>, \<lparr>start = 5, endip = 10\<rparr>] None [Some 7] = Some (Inl err)) \<and>
   CreateIPRange (Some 6) (Some 5) = Inr None"
proof -
  let ?rs = "[\<lparr>start = 1, endip = 5\<rparr>, \<lparr>start = 5, endip = 10\<rparr>]"
  have v: "\<forall>r \<in> set ?rs. start r \<le> endip r" by simp
  have n: "None \<notin> set [Some (7::int)]" by simp
  have o: "\<exists>i j. i < j \<and> j < length ?rs \<and> rangeAddrs (?rs ! i) \<inter> rangeAddrs (?rs ! j) \<noteq> {}"
    by (intro exI [of _ 0] exI [of _ 1]) (simp add: rangeAddrs_def)
  note t = FindSubnetExcludeIPBlocks_error_iff [OF v n, of 8 "\<lparr>netIP = 0, netOnes = 0\<rparr>" None]
  from t o have "\<exists>err. FindSubnetExcludeIPBlocks 8 \<lparr>netIP = 0, netOnes = 0\<rparr> ?rs None [Some 7] =
      Some (Inl err)"
    by blast
  moreover from t have "\<forall>a b. b < a \<longrightarrow> CreateIPRange (Some a) (Some b) = Inr None"
    by blast
  then have "CreateIPRange (Some 6) (Some 5) = Inr None" by simp
  ultimately show ?thesis by simp
qed

text \<open>
  The claim C3 as stated fails: two adjacent included ranges, 1 to 5 and 6 to 10, are not
  refused.
\<close>

theorem adjacent_ranges_no_error:
  "NextIP (endip \<lparr>start = 1, endip = 5\<rparr>) = start \<lparr>start = 6, endip = 10\<rparr> \<and>
   FindSubnetExcludeIPBlocks 8 \<lparr>netIP = 0, netOnes = 0\<rparr>
     [\<lparr>start = 1, endip = 5\<rparr>, \<lparr>start = 6, endip = 10\<rparr>] None [] =
   Some (Inr [\<lparr>netIP = 0, netOnes = 8\<rparr>, \<lparr>netIP = 11, netOnes = 8\<rparr>,
        \<lparr>netIP = 12, netOnes = 6\<rparr>, \<lparr>netIP = 16, netOnes = 4\<rparr>,
        \<lparr>netIP = 32, netOnes = 3\<rparr>, \<lparr>netIP = 64, netOnes = 2\<rparr>,
        \<lparr>netIP = 128, netOnes = 1\<rparr>])"
  by (simp add: adjacent_ranges_accepted NextIP_def)

lemma excludeRangesLoop_last:
  "excludeRangesLoop cs ce idx [cur] acc =
     (if start cur < cs \<or> ce < endip cur then Inl (OutOfCidr cur)
      else Inr (acc @ (if idx = 0 \<and> cs \<le> start cur - 1 then [\<lparr>start = cs, endip = start cur - 1\<rparr>] else [])
                    @ (if endip cur + 1 \<le> ce then [\<lparr>start = endip cur + 1, endip = ce\<rparr>] else [])))"
  by (simp add: CreateIPRange_Some Cmp_def PrevIP_def NextIP_def)

lemma excludeRangesLoop_step:
  "excludeRangesLoop cs ce idx (cur # nxt # rest) acc =
     (if start cur < cs \<or> ce < endip cur then Inl (OutOfCidr cur)
      else if start nxt \<le> endip cur then Inl (Overlapped cur nxt)
      else excludeRangesLoop cs ce (Suc idx) (nxt # rest)
             (acc @ (if idx = 0 \<and> cs \<le> start cur - 1 then [\<lparr>start = cs, endip = start cur - 1\<rparr>] else [])
                  @ (if endip cur + 1 \<le> start nxt - 1 then [\<lparr>start = endip cur + 1, endip = start nxt - 1\<rparr>] else [])))"
  by (subst excludeRangesLoop.simps)
     (simp add: CreateIPRange_Some Cmp_def PrevIP_def NextIP_def del: excludeRangesLoop.simps)

lemma excludeRangesLoop_gaps:
  assumes "xs \<noteq> []"
    and "sorted_wrt (\<lambda>a b. endip a < start b) xs"
    and "\<forall>r \<in> set xs. start r \<le> endip r \<and> cs \<le> start r \<and> endip r \<le> ce"
  shows "\<exists>G. excludeRangesLoop cs ce idx xs acc = Inr (acc @ G) \<and>
           (\<forall>g \<in> set G. start g \<le> endip g) \<and>
           (\<Union>g \<in> set G. rangeAddrs g) =
              {(if idx = 0 then cs else start (hd xs)) .. ce} - (\<Union>r \<in> set xs. rangeAddrs r) \<and>
           sorted_wrt (\<lambda>a b. endip a < start b) G \<and>
           (\<forall>g \<in> set G.
              (start g - 1 < cs \<or> start g - 1 \<in> (\<Union>r \<in> set xs. rangeAddrs r)) \<and>
              (ce < endip g + 1 \<or> endip g + 1 \<in> (\<Union>r \<in> set xs. rangeAddrs r)))"
  using assms
proof (induction xs arbitrary: idx acc)
  case Nil
  then show ?case by simp
next
  case (Cons cur rest)
  have cur: "start cur \<le> endip cur" "cs \<le> start cur" "endip cur \<le> ce"
    using Cons.prems(3) by simp_all
  let ?B = "if idx = 0 \<and> cs \<le> start cur - 1 then [\<lparr>start = cs, endip = start cur - 1\<rparr>] else []"
  let ?lo = "if idx = 0 then cs else start cur"
  have B: "(\<Union>g \<in> set ?B. rangeAddrs g) = {?lo .. start cur - 1}"
    by (auto simp: rangeAddrs_def)
  show ?case
  proof (cases rest)
    case Nil
    let ?A = "if endip cur + 1 \<le> ce then [\<lparr>start = endip cur + 1, endip = ce\<rparr>] else []"
    have A: "(\<Union>g \<in> set ?A. rangeAddrs g) = {endip cur + 1 .. ce}"
      by (auto simp: rangeAddrs_def)
    have run: "excludeRangesLoop cs ce idx (cur # rest) acc = Inr (acc @ (?B @ ?A))"
      unfolding Nil excludeRangesLoop_last using cur by simp
    have p1: "\<forall>g \<in> set (?B @ ?A). start g \<le> endip g" by auto
    have p2: "(\<Union>g \<in> set (?B @ ?A). rangeAddrs g) =
        {?lo .. ce} - (\<Union>r \<in> set (cur # rest). rangeAddrs r)"
    proof -
      have "(\<Union>g \<in> set (?B @ ?A). rangeAddrs g) = {?lo .. start cur - 1} \<union> {endip cur + 1 .. ce}"
        using A B by (simp only: set_append UN_Un)
      also have "\<dots> = {?lo .. ce} - rangeAddrs cur"
        using cur by (auto simp: rangeAddrs_def)
      finally show ?thesis by (simp add: Nil)
    qed
    have p3: "sorted_wrt (\<lambda>a b. endip a < start b) (?B @ ?A)"
      using cur by auto
    have p4: "\<forall>g \<in> set (?B @ ?A).
              (start g - 1 < cs \<or> start g - 1 \<in> (\<Union>r \<in> set (cur # rest). rangeAddrs r)) \<and>
              (ce < endip g + 1 \<or> endip g + 1 \<in> (\<Union>r \<in> set (cur # rest). rangeAddrs r))"
      using cur by (auto simp: rangeAddrs_def)
    show ?thesis
      using run p1 p2 p3 p4 by (intro exI [of _ "?B @ ?A"]) (simp only: list.sel simp_thms)
  next
    case (Cons nxt rest')
    let ?U' = "\<Union>r \<in> set rest. rangeAddrs r"
    have nxt: "start nxt \<le> endip nxt" "endip nxt \<le> ce" "endip cur < start nxt"
      using Cons.prems(2,3) Cons by simp_all
    have sep': "sorted_wrt (\<lambda>a b. endip a < start b) rest"
      using Cons.prems(2) by simp
    have U'sub: "?U' \<subseteq> {start nxt .. ce}"
    proof
      fix a assume "a \<in> ?U'"
      then obtain r where r: "r \<in> set rest" "a \<in> rangeAddrs r" by blast
      have "start nxt \<le> start r"
      proof (cases "r = nxt")
        case True
        then show ?thesis by simp
      next
        case False
        then have "r \<in> set rest'" using r(1) Cons by simp
        then have "endip nxt < start r" using sep' Cons by simp
        then show ?thesis using nxt(1) by simp
      qed
      moreover have "endip r \<le> ce" using Cons.prems(3) r(1) by simp
      ultimately show "a \<in> {start nxt .. ce}" using r(2) by (simp add: rangeAddrs_def)
    qed
    let ?A = "if endip cur + 1 \<le> start nxt - 1 then [\<lparr>start = endip cur + 1, endip = start nxt - 1\<rparr>] else []"
    have A: "(\<Union>g \<in> set ?A. rangeAddrs g) = {endip cur + 1 .. start nxt - 1}"
      by (auto simp: rangeAddrs_def)
    have "rest \<noteq> []" using Cons by simp
    moreover have "\<forall>r \<in> set rest. start r \<le> endip r \<and> cs \<le> start r \<and> endip r \<le> ce"
      using Cons.prems(3) by simp
    ultimately obtain G' where G':
      "excludeRangesLoop cs ce (Suc idx) rest (acc @ ?B @ ?A) = Inr ((acc @ ?B @ ?A) @ G')"
      "\<forall>g \<in> set G'. start g \<le> endip g"
      "(\<Union>g \<in> set G'. rangeAddrs g) = {start nxt .. ce} - ?U'"
      "sorted_wrt (\<lambda>a b. endip a < start b) G'"
      "\<forall>g \<in> set G'. (start g - 1 < cs \<or> start g - 1 \<in> ?U') \<and> (ce < endip g + 1 \<or> endip g + 1 \<in> ?U')"
      using Cons.IH [OF _ sep', of "Suc idx" "acc @ ?B @ ?A"] Cons by auto
    have run: "excludeRangesLoop cs ce idx (cur # rest) acc = Inr (acc @ (?B @ ?A @ G'))"
      unfolding Cons excludeRangesLoop_step using cur nxt G'(1) Cons by simp
    have G'lo: "start nxt \<le> start g" if "g \<in> set G'" for g
    proof -
      have "start g \<in> rangeAddrs g" using G'(2) that by (simp add: rangeAddrs_def)
      then have "start g \<in> {start nxt .. ce} - ?U'" using G'(3) that by blast
      then show ?thesis by simp
    qed
    have p1: "\<forall>g \<in> set (?B @ ?A @ G'). start g \<le> endip g" using G'(2) by auto
    have p2: "(\<Union>g \<in> set (?B @ ?A @ G'). rangeAddrs g) =
        {?lo .. ce} - (\<Union>r \<in> set (cur # rest). rangeAddrs r)"
    proof -
      have "(\<Union>g \<in> set (?B @ ?A @ G'). rangeAddrs g) =
          {?lo .. start cur - 1} \<union> {endip cur + 1 .. start nxt - 1} \<union> ({start nxt .. ce} - ?U')"
        using A B G'(3) by (simp only: set_append UN_Un Un_assoc)
      also have "\<dots> = {?lo .. ce} - (rangeAddrs cur \<union> ?U')"
        using cur nxt U'sub by (auto simp: rangeAddrs_def)
      finally show ?thesis by simp
    qed
    have lo': "\<forall>g \<in> set G'. start nxt \<le> start g \<and> start cur < start g"
      using G'lo cur nxt by fastforce
    have p3: "sorted_wrt (\<lambda>a b. endip a < start b) (?B @ ?A @ G')"
      using cur nxt G'(4) lo' by (fastforce simp: sorted_wrt_append)
    have p4: "\<forall>g \<in> set (?B @ ?A @ G').
              (start g - 1 < cs \<or> start g - 1 \<in> (\<Union>r \<in> set (cur # rest). rangeAddrs r)) \<and>
              (ce < endip g + 1 \<or> endip g + 1 \<in> (\<Union>r \<in> set (cur # rest). rangeAddrs r))"
    proof
      fix g assume "g \<in> set (?B @ ?A @ G')"
      then consider "g \<in> set ?B" | "g \<in> set ?A" | "g \<in> set G'" by auto
      then show "(start g - 1 < cs \<or> start g - 1 \<in> (\<Union>r \<in> set (cur # rest). rangeAddrs r)) \<and>
              (ce < endip g + 1 \<or> endip g + 1 \<in> (\<Union>r \<in> set (cur # rest). rangeAddrs r))"
      proof cases
        case 1
        then show ?thesis using cur by (auto simp: rangeAddrs_def split: if_splits)
      next
        case 2
        have "start nxt \<in> rangeAddrs nxt" using nxt(1) by (simp add: rangeAddrs_def)
        then have "start nxt \<in> ?U'" using Cons by auto
        moreover have "endip cur \<in> rangeAddrs cur" using cur by (simp add: rangeAddrs_def)
        ultimately show ?thesis using 2 by (auto split: if_splits)
      next
        case 3
        then show ?thesis using G'(5) by auto
      qed
    qed
    show ?thesis
      using run p1 p2 p3 p4 by (intro exI [of _ "?B @ ?A @ G'"]) (simp only: list.sel simp_thms)
  qed
qed

lemma TryAddIP_addrs:
  assumes "start g \<le> endip g" "fst (TryAddIP g (Some a))"
  shows "rangeAddrs (snd (TryAddIP g (Some a))) = insert a (rangeAddrs g)"
  using assms by (auto simp: TryAddIP_def rangeAddrs_def PrevIP_def NextIP_def Cmp_def split: if_splits)

lemma tryAddToRanges_union:
  "\<forall>g \<in> set L. start g \<le> endip g \<Longrightarrow> tryAddToRanges L (Some a) = Some L' \<Longrightarrow>
   (\<Union>g \<in> set L'. rangeAddrs g) = insert a (\<Union>g \<in> set L. rangeAddrs g)"
proof (induction L arbitrary: L')
  case Nil
  then show ?case by simp
next
  case (Cons g L)
  show ?case
  proof (cases "fst (TryAddIP g (Some a))")
    case True
    then have "L' = snd (TryAddIP g (Some a)) # L" using Cons.prems(2) by simp
    then show ?thesis using TryAddIP_addrs [OF _ True] Cons.prems(1) by simp
  next
    case False
    then obtain L2 where L2: "tryAddToRanges L (Some a) = Some L2" "L' = g # L2"
      using Cons.prems(2) by auto
    have "(\<Union>g \<in> set L2. rangeAddrs g) = insert a (\<Union>g \<in> set L. rangeAddrs g)"
      using Cons.IH [OF _ L2(1)] Cons.prems(1) by simp
    then show ?thesis using L2(2) by auto
  qed
qed

lemma tryAddToRanges_nil_addr: "tryAddToRanges L None = None"
  by (induction L) (simp_all add: TryAddIP_def)

lemma addExcludedIPs_union:
  "\<forall>g \<in> set L. start g \<le> endip g \<Longrightarrow> addExcludedIPs L ips = Inr L' \<Longrightarrow>
   (\<Union>g \<in> set L'. rangeAddrs g) = (\<Union>g \<in> set L. rangeAddrs g) \<union> {a. Some a \<in> set ips}"
proof (induction ips arbitrary: L)
  case Nil
  then show ?case by simp
next
  case (Cons ip ips)
  show ?case
  proof (cases ip)
    case None
    then show ?thesis using Cons.prems(2) by (simp add: tryAddToRanges_nil_addr CreateIPRange_def)
  next
    case (Some a)
    show ?thesis
    proof (cases "tryAddToRanges L ip")
      case t: (Some L2)
      then have r: "addExcludedIPs L2 ips = Inr L'" using Cons.prems(2) by simp
      have v: "\<forall>g \<in> set L2. start g \<le> endip g"
        using tryAddToRanges_valid [OF Cons.prems(1) t] .
      have "(\<Union>g \<in> set L2. rangeAddrs g) = insert a (\<Union>g \<in> set L. rangeAddrs g)"
        using tryAddToRanges_union [OF Cons.prems(1)] t Some by simp
      then show ?thesis using Cons.IH [OF v r] Some by auto
    next
      case None
      let ?L2 = "L @ [\<lparr>start = a, endip = a\<rparr>]"
      have r: "addExcludedIPs ?L2 ips = Inr L'"
        using Cons.prems(2) None Some by (simp add: CreateIPRange_Some)
      have v: "\<forall>g \<in> set ?L2. start g \<le> endip g" using Cons.prems(1) by simp
      have "(\<Union>g \<in> set ?L2. rangeAddrs g) = insert a (\<Union>g \<in> set L. rangeAddrs g)"
        by (auto simp: rangeAddrs_def)
      then show ?thesis using Cons.IH [OF v r] Some by auto
    qed
  qed
qed

lemma tryAddToRanges_inside:
  "a \<in> (\<Union>g \<in> set L. rangeAddrs g) \<Longrightarrow>
   \<forall>g \<in> set L. a \<noteq> start g - 1 \<and> a \<noteq> endip g + 1 \<Longrightarrow>
   tryAddToRanges L (Some a) = Some L"
proof (induction L)
  case Nil
  then show ?case by simp
next
  case (Cons g L)
  have na: "a \<noteq> start g - 1" "a \<noteq> endip g + 1" using Cons.prems(2) by simp_all
  then have t: "TryAddIP g (Some a) = (a \<in> rangeAddrs g, g)"
    by (auto simp: TryAddIP_def rangeAddrs_def PrevIP_def NextIP_def Cmp_def)
  show ?case
  proof (cases "a \<in> rangeAddrs g")
    case True
    then show ?thesis using t by simp
  next
    case False
    then have "a \<in> (\<Union>g \<in> set L. rangeAddrs g)" using Cons.prems(1) by simp
    then have "tryAddToRanges L (Some a) = Some L" using Cons.IH Cons.prems(2) by simp
    then show ?thesis using t False by simp
  qed
qed

lemma addExcludedIPs_inside:
  "\<forall>ip \<in> set ips. \<exists>a. ip = Some a \<and> a \<in> (\<Union>g \<in> set L. rangeAddrs g) \<Longrightarrow>
   \<forall>g \<in> set L. start g - 1 \<notin> (\<Union>g \<in> set L. rangeAddrs g) \<and>
                endip g + 1 \<notin> (\<Union>g \<in> set L. rangeAddrs g) \<Longrightarrow>
   addExcludedIPs L ips = Inr L"
proof (induction ips)
  case Nil
  then show ?case by simp
next
  case (Cons ip ips)
  then obtain a where a: "ip = Some a" "a \<in> (\<Union>g \<in> set L. rangeAddrs g)" by auto
  have "\<forall>g \<in> set L. a \<noteq> start g - 1 \<and> a \<noteq> endip g + 1"
    using Cons.prems(2) a(2) by blast
  from tryAddToRanges_inside [OF a(2) this] have "tryAddToRanges L ip = Some L"
    using a(1) by simp
  then show ?case using Cons by simp
qed

lemma splitIPRangeToIPBlocks_cover:
  assumes "start g \<le> endip g"
  shows "\<exists>bs. splitIPRangeToIPBlocks bits g = Some bs \<and>
           (\<Union>b \<in> set bs. blockAddrs bits b) = rangeAddrs g \<and>
           sorted_wrt (\<lambda>a b. blockAddrs bits a \<inter> blockAddrs bits b = {}) bs"
proof -
  from splitLoop_chain [OF assms, of bits "[]"]
  obtain bs where bs: "splitIPRangeToIPBlocks bits g = Some bs"
    "greedyChain bits (start g) (endip g) bs"
    by (auto simp: splitIPRangeToIPBlocks_def)
  from greedyChain_cover [OF bs(2)] bs(1) show ?thesis
    by (auto simp: rangeAddrs_def)
qed

lemma splitAll_cover:
  "\<forall>g \<in> set L. start g \<le> endip g \<Longrightarrow>
   \<exists>bs. splitAll bits L = Some bs \<and>
     (\<Union>b \<in> set bs. blockAddrs bits b) = (\<Union>g \<in> set L. rangeAddrs g) \<and>
     (sorted_wrt (\<lambda>a b. rangeAddrs a \<inter> rangeAddrs b = {}) L \<longrightarrow>
      sorted_wrt (\<lambda>a b. blockAddrs bits a \<inter> blockAddrs bits b = {}) bs)"
proof (induction L)
  case Nil
  then show ?case by simp
next
  case (Cons g L)
  then have "start g \<le> endip g" by simp
  from splitIPRangeToIPBlocks_cover [OF this, of bits]
  obtain b1 where b1: "splitIPRangeToIPBlocks bits g = Some b1"
    "(\<Union>b \<in> set b1. blockAddrs bits b) = rangeAddrs g"
    "sorted_wrt (\<lambda>a b. blockAddrs bits a \<inter> blockAddrs bits b = {}) b1" by blast
  from Cons obtain b2 where b2: "splitAll bits L = Some b2"
    "(\<Union>b \<in> set b2. blockAddrs bits b) = (\<Union>g \<in> set L. rangeAddrs g)"
    "sorted_wrt (\<lambda>a b. rangeAddrs a \<inter> rangeAddrs b = {}) L \<longrightarrow>
      sorted_wrt (\<lambda>a b. blockAddrs bits a \<inter> blockAddrs bits b = {}) b2" by auto
  have run: "splitAll bits (g # L) = Some (b1 @ b2)" using b1(1) b2(1) by simp
  have un: "(\<Union>b \<in> set (b1 @ b2). blockAddrs bits b) = (\<Union>g \<in> set (g # L). rangeAddrs g)"
    using b1(2) b2(2) by auto
  have dj: "sorted_wrt (\<lambda>a b. blockAddrs bits a \<inter> blockAddrs bits b = {}) (b1 @ b2)"
    if s: "sorted_wrt (\<lambda>a b. rangeAddrs a \<inter> rangeAddrs b = {}) (g # L)"
  proof -
    have "rangeAddrs g \<inter> (\<Union>g \<in> set L. rangeAddrs g) = {}" using s by auto
    then have "\<forall>x \<in> set b1. \<forall>y \<in> set b2. blockAddrs bits x \<inter> blockAddrs bits y = {}"
      using b1(2) b2(2) by blast
    then show ?thesis using b1(3) b2(3) s by (simp add: sorted_wrt_append)
  qed
  show ?case using run un dj by blast
qed

text \<open>
  C1, as the code has it. Let \<open>cidr\<close> contain neither the first nor the last address of
  its address family, and let the list of included ranges be non-empty, each range with
  \<open>start \<le> end\<close>, lying between the address of \<open>cidr\<close> as it is given (\<open>cidr.IP\<close>) and the
  last address of \<open>cidr\<close>, no two of them sharing an address; let the gateway (when there is
  one) and every excluded address be a non-nil address between \<open>cidr.IP\<close> and the last
  address of \<open>cidr\<close>. Then \<open>FindSubnetExcludeIPBlocks\<close> returns blocks whose union is exactly
  the addresses from \<open>cidr.IP\<close> to the last address of \<open>cidr\<close> outside every included range,
  together with the gateway and the excluded addresses; so the union of the blocks with
  the included ranges is exactly the addresses from \<open>cidr.IP\<close> to the last address of
  \<open>cidr\<close>, which is the address set of \<open>cidr\<close> when \<open>cidr.IP\<close> is the network address. When
  moreover no excluded address and no gateway lies inside an included range, the blocks
  are pairwise disjoint and none of them intersects an included range.
\<close>

theorem FindSubnetExcludeIPBlocks_cover:
  "includedRanges \<noteq> [] \<Longrightarrow>
   \<forall>r \<in> set includedRanges. start r \<le> endip r \<and> netIP cidr \<le> start r \<and> endip r \<le> LastIP bits cidr \<Longrightarrow>
   \<not> overlapping includedRanges \<Longrightarrow>
   0 < netIP cidr \<Longrightarrow>
   LastIP bits cidr < 2 ^ bits - 1 \<Longrightarrow>
   None \<notin> set excludeIPs \<Longrightarrow>
   {a. Some a \<in> set excludeIPs} \<union> set_option gateway \<subseteq> {netIP cidr .. LastIP bits cidr} \<Longrightarrow>
   \<exists>bs. FindSubnetExcludeIPBlocks bits cidr includedRanges gateway excludeIPs = Some (Inr bs) \<and>
     (\<Union>b \<in> set bs. blockAddrs bits b) =
        ({netIP cidr .. LastIP bits cidr} - (\<Union>r \<in> set includedRanges. rangeAddrs r)) \<union>
        ({a. Some a \<in> set excludeIPs} \<union> set_option gateway) \<and>
     (\<Union>b \<in> set bs. blockAddrs bits b) \<union> (\<Union>r \<in> set includedRanges. rangeAddrs r) =
        {netIP cidr .. LastIP bits cidr} \<and>
     (maskIP (netOnes cidr) bits (netIP cidr) = netIP cidr \<longrightarrow>
        (\<Union>b \<in> set bs. blockAddrs bits b) \<union> (\<Union>r \<in> set includedRanges. rangeAddrs r) =
          blockAddrs bits cidr) \<and>
     (({a. Some a \<in> set excludeIPs} \<union> set_option gateway) \<inter>
         (\<Union>r \<in> set includedRanges. rangeAddrs r) = {} \<longrightarrow>
        (\<forall>i j. i < j \<and> j < length bs \<longrightarrow> blockAddrs bits (bs ! i) \<inter> blockAddrs bits (bs ! j) = {}) \<and>
        (\<forall>b \<in> set bs. \<forall>r \<in> set includedRanges. blockAddrs bits b \<inter> rangeAddrs r = {}))"
proof -
  assume ne: "includedRanges \<noteq> []"
    and win: "\<forall>r \<in> set includedRanges. start r \<le> endip r \<and> netIP cidr \<le> start r \<and> endip r \<le> LastIP bits cidr"
    and no: "\<not> overlapping includedRanges"
    and nn: "None \<notin> set excludeIPs"
    and ein: "{a. Some a \<in> set excludeIPs} \<union> set_option gateway \<subseteq> {netIP cidr .. LastIP bits cidr}"
  let ?xs = "sort_key start includedRanges"
  let ?cs = "netIP cidr" and ?ce = "LastIP bits cidr"
  let ?U = "\<Union>r \<in> set includedRanges. rangeAddrs r"
  let ?E = "{a. Some a \<in> set excludeIPs} \<union> set_option gateway"
  let ?ips = "excludeIPs @ (case gateway of None \<Rightarrow> [] | Some g \<Rightarrow> [Some g])"
  have v: "\<forall>r \<in> set includedRanges. start r \<le> endip r" using win by simp
  have vx: "\<forall>r \<in> set ?xs. start r \<le> endip r" using v by simp
  have "\<not> consecOverlap ?xs"
    using no consecOverlap_sorted_iff [OF vx sorted_sort_key] overlapping_sort [OF v] by simp
  from separated_of_no_consecOverlap [OF vx this]
  have sep: "sorted_wrt (\<lambda>a b. endip a < start b) ?xs" .
  have xne: "?xs \<noteq> []" using ne by (metis length_0_conv length_sort)
  have winx: "\<forall>r \<in> set ?xs. start r \<le> endip r \<and> ?cs \<le> start r \<and> endip r \<le> ?ce"
    using win by simp
  have Ux: "(\<Union>r \<in> set ?xs. rangeAddrs r) = ?U" by simp
  have "\<exists>G. excludeRangesLoop ?cs ?ce 0 ?xs [] = Inr G \<and>
    (\<forall>g \<in> set G. start g \<le> endip g) \<and>
    (\<Union>g \<in> set G. rangeAddrs g) = {?cs .. ?ce} - ?U \<and>
    sorted_wrt (\<lambda>a b. endip a < start b) G \<and>
    (\<forall>g \<in> set G. (start g - 1 < ?cs \<or> start g - 1 \<in> ?U) \<and> (?ce < endip g + 1 \<or> endip g + 1 \<in> ?U))"
    using excludeRangesLoop_gaps [OF xne sep winx, of 0 "[]"]
    by (simp only: Ux if_True append_Nil simp_thms)
  then obtain G where G: "excludeRangesLoop ?cs ?ce 0 ?xs [] = Inr G"
    "\<forall>g \<in> set G. start g \<le> endip g"
    "(\<Union>g \<in> set G. rangeAddrs g) = {?cs .. ?ce} - ?U"
    "sorted_wrt (\<lambda>a b. endip a < start b) G"
    "\<forall>g \<in> set G. (start g - 1 < ?cs \<or> start g - 1 \<in> ?U) \<and> (?ce < endip g + 1 \<or> endip g + 1 \<in> ?U)"
    by (elim exE conjE)
  have nn': "None \<notin> set ?ips" using nn by (simp split: option.splits)
  have E: "{a. Some a \<in> set ?ips} = ?E" by (auto split: option.splits)
  from addExcludedIPs_no_error [OF nn', of G] obtain L where L: "addExcludedIPs G ?ips = Inr L" ..
  have vL: "\<forall>g \<in> set L. start g \<le> endip g" using addExcludedIPs_valid [OF G(2) L] .
  have uL: "(\<Union>g \<in> set L. rangeAddrs g) = ({?cs .. ?ce} - ?U) \<union> ?E"
    using addExcludedIPs_union [OF G(2) L] G(3) E by simp
  from splitAll_cover [OF vL, of bits]
  obtain bs where bs: "splitAll bits L = Some bs"
    "(\<Union>b \<in> set bs. blockAddrs bits b) = (\<Union>g \<in> set L. rangeAddrs g)"
    "sorted_wrt (\<lambda>a b. rangeAddrs a \<inter> rangeAddrs b = {}) L \<longrightarrow>
      sorted_wrt (\<lambda>a b. blockAddrs bits a \<inter> blockAddrs bits b = {}) bs" by blast
  have run: "FindSubnetExcludeIPBlocks bits cidr includedRanges gateway excludeIPs = Some (Inr bs)"
    using G(1) L bs(1) by (simp add: FindSubnetExcludeIPBlocks_def)
  have c1: "(\<Union>b \<in> set bs. blockAddrs bits b) = ({?cs .. ?ce} - ?U) \<union> ?E"
    using bs(2) uL by simp
  have Usub: "?U \<subseteq> {?cs .. ?ce}" using win by (auto simp: rangeAddrs_def)
  have c2: "(\<Union>b \<in> set bs. blockAddrs bits b) \<union> ?U = {?cs .. ?ce}"
    using c1 ein Usub by blast
  have c2m: "maskIP (netOnes cidr) bits (netIP cidr) = netIP cidr \<longrightarrow>
      (\<Union>b \<in> set bs. blockAddrs bits b) \<union> ?U = blockAddrs bits cidr"
    using c2 blockAddrs_interval [of bits cidr] by simp
  have c3: "(\<forall>i j. i < j \<and> j < length bs \<longrightarrow> blockAddrs bits (bs ! i) \<inter> blockAddrs bits (bs ! j) = {}) \<and>
        (\<forall>b \<in> set bs. \<forall>r \<in> set includedRanges. blockAddrs bits b \<inter> rangeAddrs r = {})"
    if dis: "?E \<inter> ?U = {}"
  proof -
    have "?E \<subseteq> {?cs .. ?ce} - ?U" using dis ein by (rule_tac subsetI) blast
    then have EG: "?E \<subseteq> (\<Union>g \<in> set G. rangeAddrs g)" unfolding G(3) .
    have a1: "\<forall>ip \<in> set ?ips. \<exists>a. ip = Some a \<and> a \<in> (\<Union>g \<in> set G. rangeAddrs g)"
    proof
      fix ip assume ip: "ip \<in> set ?ips"
      have "ip \<noteq> None" using ip nn' by metis
      then obtain a where a: "ip = Some a" by (cases ip) simp_all
      then have "a \<in> {a. Some a \<in> set ?ips}" using ip by simp
      then have "a \<in> ?E" unfolding E .
      then show "\<exists>a. ip = Some a \<and> a \<in> (\<Union>g \<in> set G. rangeAddrs g)" using a EG by blast
    qed
    have a2: "\<forall>g \<in> set G. start g - 1 \<notin> (\<Union>g \<in> set G. rangeAddrs g) \<and>
                endip g + 1 \<notin> (\<Union>g \<in> set G. rangeAddrs g)"
    proof
      fix g assume g: "g \<in> set G"
      from G(5) g have *: "start g - 1 < ?cs \<or> start g - 1 \<in> ?U" "?ce < endip g + 1 \<or> endip g + 1 \<in> ?U"
        by blast+
      from *(1) have "start g - 1 \<notin> {?cs .. ?ce} - ?U" by (elim disjE) simp_all
      moreover from *(2) have "endip g + 1 \<notin> {?cs .. ?ce} - ?U" by (elim disjE) simp_all
      ultimately show "start g - 1 \<notin> (\<Union>g \<in> set G. rangeAddrs g) \<and>
                endip g + 1 \<notin> (\<Union>g \<in> set G. rangeAddrs g)"
        unfolding G(3) by (rule conjI)
    qed
    have "L = G" using addExcludedIPs_inside [OF a1 a2] L by simp
    have "sorted_wrt (\<lambda>a b. rangeAddrs a \<inter> rangeAddrs b = {}) G"
      by (rule sorted_wrt_mono_rel [OF _ G(4)]) (auto simp: rangeAddrs_def)
    then have "sorted_wrt (\<lambda>a b. blockAddrs bits a \<inter> blockAddrs bits b = {}) bs"
      using bs(3) \<open>L = G\<close> by simp
    then have d1: "\<forall>i j. i < j \<and> j < length bs \<longrightarrow> blockAddrs bits (bs ! i) \<inter> blockAddrs bits (bs ! j) = {}"
      by (simp add: sorted_wrt_iff_nth_less)
    have "(\<Union>b \<in> set bs. blockAddrs bits b) = {?cs .. ?ce} - ?U"
      using bs(2) \<open>L = G\<close> G(3) by simp
    then have "(\<Union>b \<in> set bs. blockAddrs bits b) \<inter> ?U = {}" by (simp add: Diff_Int_distrib2)
    then have d2: "\<forall>b \<in> set bs. \<forall>r \<in> set includedRanges. blockAddrs bits b \<inter> rangeAddrs r = {}"
      by blast
    show ?thesis using d1 d2 by simp
  qed
  from c3 have c3': "?E \<inter> ?U = {} \<longrightarrow>
      (\<forall>i j. i < j \<and> j < length bs \<longrightarrow> blockAddrs bits (bs ! i) \<inter> blockAddrs bits (bs ! j) = {}) \<and>
      (\<forall>b \<in> set bs. \<forall>r \<in> set includedRanges. blockAddrs bits b \<inter> rangeAddrs r = {})"
    by (rule impI)
  show ?thesis
    by (rule exI [of _ bs]) (intro conjI run c1 c2 c2m c3')
qed

lemma find_example:
  "FindSubnetExcludeIPBlocks 32 \<lparr>netIP = 167772160, netOnes = 24\<rparr>
      [\<lparr>start = 167772170, endip = 167772180\<rparr>] (Some 167772161) [Some 167772414] =
   Some (Inr [\<lparr>netIP = 167772160, netOnes = 29\<rparr>, \<lparr>netIP = 167772168, netOnes = 31\<rparr>,
        \<lparr>netIP = 167772181, netOnes = 32\<rparr>, \<lparr>netIP = 167772182, netOnes = 31\<rparr>,
        \<lparr>netIP = 167772184, netOnes = 29\<rparr>, \<lparr>netIP = 167772192, netOnes = 27\<rparr>,
        \<lparr>netIP = 167772224, netOnes = 26\<rparr>, \<lparr>netIP = 167772288, netOnes = 25\<rparr>])"
  by code_simp

lemma find_no_included:
  "FindSubnetExcludeIPBlocks 32 \<lparr>netIP = 167772160, netOnes = 24\<rparr> [] None [] = Some (Inr [])"
  by code_simp

lemma find_excluded_inside:
  "FindSubnetExcludeIPBlocks 32 \<lparr>netIP = 167772160, netOnes = 24\<rparr>
      [\<lparr>start = 167772170, endip = 167772180\<rparr>] None [Some 167772175] =
   Some (Inr [\<lparr>netIP = 167772160, netOnes = 29\<rparr>, \<lparr>netIP = 167772168, netOnes = 31\<rparr>,
        \<lparr>netIP = 167772181, netOnes = 32\<rparr>, \<lparr>netIP = 167772182, netOnes = 31\<rparr>,
        \<lparr>netIP = 167772184, netOnes = 29\<rparr>, \<lparr>netIP = 167772192, netOnes = 27\<rparr>,
        \<lparr>netIP = 167772224, netOnes = 26\<rparr>, \<lparr>netIP = 167772288, netOnes = 25\<rparr>,
        \<lparr>netIP = 167772175, netOnes = 32\<rparr>])"
  by code_simp

lemma find_unmasked_cidr:
  "FindSubnetExcludeIPBlocks 32 \<lparr>netIP = 167772165, netOnes = 24\<rparr>
      [\<lparr>start = 167772170, endip = 167772180\<rparr>] None [] =
   Some (Inr [\<lparr>netIP = 167772165, netOnes = 32\<rparr>, \<lparr>netIP = 167772166, netOnes = 31\<rparr>,
        \<lparr>netIP = 167772168, netOnes = 31\<rparr>,
        \<lparr>netIP = 167772181, netOnes = 32\<rparr>, \<lparr>netIP = 167772182, netOnes = 31\<rparr>,
        \<lparr>netIP = 167772184, netOnes = 29\<rparr>, \<lparr>netIP = 167772192, netOnes = 27\<rparr>,
        \<lparr>netIP = 167772224, netOnes = 26\<rparr>, \<lparr>netIP = 167772288, netOnes = 25\<rparr>])"
  by code_simp

theorem FindSubnetExcludeIPBlocks_cover_witness:
  "\<exists>bs. FindSubnetExcludeIPBlocks 32 \<lparr>netIP = 167772160, netOnes = 24\<rparr>
          [\<lparr>start = 167772170, endip = 167772180\<rparr>] (Some 167772161) [Some 167772414] =
          Some (Inr bs) \<and>
        length bs = 8 \<and>
        (\<Union>b \<in> set bs. blockAddrs 32 b) \<union> rangeAddrs \<lparr>start = 167772170, endip = 167772180\<rparr> =
           blockAddrs 32 \<lparr>netIP = 167772160, netOnes = 24\<rparr> \<and>
        (\<Union>b \<in> set bs. blockAddrs 32 b) \<inter> rangeAddrs \<lparr>start = 167772170, endip = 167772180\<rparr> = {}"
proof -
  let ?cidr = "\<lparr>netIP = 167772160, netOnes = 24\<rparr>"
  let ?rs = "[\<lparr>start = 167772170, endip = 167772180\<rparr>]"
  have last: "LastIP 32 ?cidr = 167772415" by (simp add: LastIP_def maskIP_def)
  have h1: "?rs \<noteq> []" by simp
  have h2: "\<forall>r \<in> set ?rs. start r \<le> endip r \<and> netIP ?cidr \<le> start r \<and> endip r \<le> LastIP 32 ?cidr"
    by (simp add: last)
  have h3: "\<not> overlapping ?rs" by (simp add: overlapping_def)
  have h4: "0 < netIP ?cidr" by simp
  have h5: "LastIP 32 ?cidr < 2 ^ 32 - 1" by (simp add: last)
  have h6: "None \<notin> set [Some (167772414::int)]" by simp
  have e: "{a. Some a \<in> set [Some (167772414::int)]} \<union> set_option (Some 167772161) =
      {167772414, 167772161}"
    by auto
  have h7: "{a. Some a \<in> set [Some (167772414::int)]} \<union> set_option (Some 167772161)
      \<subseteq> {netIP ?cidr .. LastIP 32 ?cidr}"
    unfolding e last by simp
  have m: "maskIP (netOnes ?cidr) 32 (netIP ?cidr) = netIP ?cidr" by (simp add: maskIP_def)
  have d: "({a. Some a \<in> set [Some (167772414::int)]} \<union> set_option (Some 167772161)) \<inter>
      (\<Union>r \<in> set ?rs. rangeAddrs r) = {}"
    unfolding e by (simp add: rangeAddrs_def)
  from FindSubnetExcludeIPBlocks_cover [OF h1 h2 h3 h4 h5 h6 h7]
  obtain bs where bs:
    "FindSubnetExcludeIPBlocks 32 ?cidr ?rs (Some 167772161) [Some 167772414] = Some (Inr bs)"
    "maskIP (netOnes ?cidr) 32 (netIP ?cidr) = netIP ?cidr \<longrightarrow>
        (\<Union>b \<in> set bs. blockAddrs 32 b) \<union> (\<Union>r \<in> set ?rs. rangeAddrs r) = blockAddrs 32 ?cidr"
    "({a. Some a \<in> set [Some (167772414::int)]} \<union> set_option (Some 167772161)) \<inter>
         (\<Union>r \<in> set ?rs. rangeAddrs r) = {} \<longrightarrow>
        (\<forall>i j. i < j \<and> j < length bs \<longrightarrow> blockAddrs 32 (bs ! i) \<inter> blockAddrs 32 (bs ! j) = {}) \<and>
        (\<forall>b \<in> set bs. \<forall>r \<in> set ?rs. blockAddrs 32 b \<inter> rangeAddrs r = {})"
    by (elim exE conjE)
  from bs(3) d have "\<forall>b \<in> set bs. \<forall>r \<in> set ?rs. blockAddrs 32 b \<inter> rangeAddrs r = {}"
    by blast
  then have i: "(\<Union>b \<in> set bs. blockAddrs 32 b) \<inter> rangeAddrs \<lparr>start = 167772170, endip = 167772180\<rparr> = {}"
    by auto
  have u: "(\<Union>b \<in> set bs. blockAddrs 32 b) \<union> rangeAddrs \<lparr>start = 167772170, endip = 167772180\<rparr> =
      blockAddrs 32 ?cidr"
    using bs(2) m by simp
  have l: "length bs = 8" using bs(1) by (auto simp: find_example)
  show ?thesis using bs(1) l u i by blast
qed

text \<open>
  The claim C1 as stated fails on valid inputs, here in 10.0.0.0/24. With no included
  range and nothing excluded, no block is returned, so the union is empty and not \<open>cidr\<close>.
  With the included range from 10.0.0.10 to 10.0.0.20 and the excluded address 10.0.0.15,
  which lies in \<open>cidr\<close>, the block of the single address 10.0.0.15 is returned, and it
  intersects the included range. With \<open>cidr\<close> given as 10.0.0.5/24, its address not masked,
  the blocks start at 10.0.0.5, and the address 10.0.0.0 of \<open>cidr\<close> is in no block and in no
  included range.
\<close>

theorem FindSubnetExcludeIPBlocks_cover_fails:
  "FindSubnetExcludeIPBlocks 32 \<lparr>netIP = 167772160, netOnes = 24\<rparr> [] None [] = Some (Inr []) \<and>
   FindSubnetExcludeIPBlocks 32 \<lparr>netIP = 167772160, netOnes = 24\<rparr>
      [\<lparr>start = 167772170, endip = 167772180\<rparr>] None [Some 167772175] =
   Some (Inr [\<lparr>netIP = 167772160, netOnes = 29\<rparr>, \<lparr>netIP = 167772168, netOnes = 31\<rparr>,
        \<lparr>netIP = 167772181, netOnes = 32\<rparr>, \<lparr>netIP = 167772182, netOnes = 31\<rparr>,
        \<lparr>netIP = 167772184, netOnes = 29\<rparr>, \<lparr>netIP = 167772192, netOnes = 27\<rparr>,
        \<lparr>netIP = 167772224, netOnes = 26\<rparr>, \<lparr>netIP = 167772288, netOnes = 25\<rparr>,
        \<lparr>netIP = 167772175, netOnes = 32\<rparr>]) \<and>
   167772175 \<in> blockAddrs 32 \<lparr>netIP = 167772175, netOnes = 32\<rparr> \<inter>
      rangeAddrs \<lparr>start = 167772170, endip = 167772180\<rparr> \<and>
   167772175 \<in> blockAddrs 32 \<lparr>netIP = 167772160, netOnes = 24\<rparr> \<and>
   FindSubnetExcludeIPBlocks 32 \<lparr>netIP = 167772165, netOnes = 24\<rparr>
      [\<lparr>start = 167772170, endip = 167772180\<rparr>] None [] =
   Some (Inr [\<lparr>netIP = 167772165, netOnes = 32\<rparr>, \<lparr>netIP = 167772166, netOnes = 31\<rparr>,
        \<lparr>netIP = 167772168, netOnes = 31\<rparr>,
        \<lparr>netIP = 167772181, netOnes = 32\<rparr>, \<lparr>netIP = 167772182, netOnes = 31\<rparr>,
        \<lparr>netIP = 167772184, netOnes = 29\<rparr>, \<lparr>netIP = 167772192, netOnes = 27\<rparr>,
        \<lparr>netIP = 167772224, netOnes = 26\<rparr>, \<lparr>netIP = 167772288, netOnes = 25\<rparr>]) \<and>
   167772160 \<in> blockAddrs 32 \<lparr>netIP = 167772165, netOnes = 24\<rparr> \<and>
   167772160 \<notin> (\<Union>b \<in> set [\<lparr>netIP = 167772165, netOnes = 32\<rparr>, \<lparr>netIP = 167772166, netOnes = 31\<rparr>,
        \<lparr>netIP = 167772168, netOnes = 31\<rparr>,
        \<lparr>netIP = 167772181, netOnes = 32\<rparr>, \<lparr>netIP = 167772182, netOnes = 31\<rparr>,
        \<lparr>netIP = 167772184, netOnes = 29\<rparr>, \<lparr>netIP = 167772192, netOnes = 27\<rparr>,
        \<lparr>netIP = 167772224, netOnes = 26\<rparr>, \<lparr>netIP = 167772288, netOnes = 25\<rparr>].
          blockAddrs 32 b) \<union> rangeAddrs \<lparr>start = 167772170, endip = 167772180\<rparr>"
  by (simp add: find_no_included find_excluded_inside find_unmasked_cidr blockAddrs_def
      Contains_def maskIP_def rangeAddrs_def)

text \<open>
  C4. For a range with \<open>start \<le> end\<close>, \<open>TryAddIP\<close> succeeds and extends the range by one
  address when given the address just before \<open>start\<close> or just after \<open>end\<close>, succeeds and
  leaves the range as it is for an address inside it, and fails, leaving the range as it
  is, for every other address. On the range from 10 to 20: 9 gives the range from 9 to 20,
  21 gives the range from 10 to 21, 15 succeeds with no change, 25 fails.
\<close>

theorem TryAddIP_extends_or_accepts:
  "start ir \<le> endip ir \<Longrightarrow>
   TryAddIP ir (Some (start ir - 1)) = (True, ir\<lparr>start := start ir - 1\<rparr>) \<and>
   TryAddIP ir (Some (endip ir + 1)) = (True, ir\<lparr>endip := endip ir + 1\<rparr>) \<and>
   (\<forall>a. start ir \<le> a \<and> a \<le> endip ir \<longrightarrow> TryAddIP ir (Some a) = (True, ir)) \<and>
   (\<forall>a. a < start ir - 1 \<or> endip ir + 1 < a \<longrightarrow> TryAddIP ir (Some a) = (False, ir))"
  by (auto simp: TryAddIP_def PrevIP_def NextIP_def Cmp_def)

theorem TryAddIP_extends_or_accepts_witness:
  "TryAddIP \<lparr>start = 10, endip = 20\<rparr> (Some 9) = (True, \<lparr>start = 9, endip = 20\<rparr>) \<and>
   TryAddIP \<lparr>start = 10, endip = 20\<rparr> (Some 21) = (True, \<lparr>start = 10, endip = 21\<rparr>) \<and>
   TryAddIP \<lparr>start = 10, endip = 20\<rparr> (Some 15) = (True, \<lparr>start = 10, endip = 20\<rparr>) \<and>
   TryAddIP \<lparr>start = 10, endip = 20\<rparr> (Some 25) = (False, \<lparr>start = 10, endip = 20\<rparr>)"
  using TryAddIP_extends_or_accepts [of "\<lparr>start = 10, endip = 20\<rparr>"] by simp

section \<open>Properties of the policy-route manager\<close>

lemma scanRules_dom:
  "dom (fst (scanRules rs (m, n))) = dom m \<union> (\<lambda>r. realRulePriority (rulePriority r)) ` set rs"
  by (induction rs arbitrary: m n) auto

lemma scanRules_none:
  "\<forall>r \<in> set rs. ruleTable r \<noteq> NodeLocalTableNum \<Longrightarrow> snd (scanRules rs (m, n)) = n"
  by (induction rs arbitrary: m n) auto

lemma scanRules_append:
  "scanRules (rs1 @ rs2) mn = scanRules rs2 (scanRules rs1 mn)"
  by (induction rs1 arbitrary: mn) (auto split: prod.splits)

lemma scanRules_last_local:
  assumes "ruleTable r = NodeLocalTableNum" "\<forall>x \<in> set rs2. ruleTable x \<noteq> NodeLocalTableNum"
  shows "snd (scanRules (rs1 @ r # rs2) (m, n)) = realRulePriority (rulePriority r)"
proof -
  obtain m1 n1 where a: "scanRules rs1 (m, n) = (m1, n1)" by (cases "scanRules rs1 (m, n)")
  have "scanRules (rs1 @ r # rs2) (m, n) =
      scanRules rs2 (m1(realRulePriority (rulePriority r) \<mapsto> True), realRulePriority (rulePriority r))"
    using a assms(1) by (simp add: scanRules_append)
  then show ?thesis using scanRules_none [OF assms(2)] by simp
qed

lemma priorityLoop_spec:
  "priorityLoop m n p = Inr q \<Longrightarrow> p \<le> q \<and> q \<le> MaxRulePriority \<and> m q = None \<and> n < q"
proof (induction m n p rule: priorityLoop.induct)
  case (1 m n p)
  show ?case
  proof (cases "p \<le> MaxRulePriority")
    case le: True
    show ?thesis
    proof (cases "m p = None \<and> p > n")
      case True
      then have "q = p" using "1.prems" le by (subst (asm) priorityLoop.simps) simp
      then show ?thesis using True le by simp
    next
      case False
      then have "priorityLoop m n (p + 1) = Inr q"
        using "1.prems" le by (subst (asm) priorityLoop.simps) auto
      from "1.IH" [OF le False this] show ?thesis by simp
    qed
  next
    case False
    then show ?thesis using "1.prems" by (subst (asm) priorityLoop.simps) simp
  qed
qed

lemma sorted_last_local_max:
  assumes s: "sorted (map (\<lambda>r. realRulePriority (rulePriority r)) (rs1 @ r # rs2))"
    and x: "x \<in> set (rs1 @ r # rs2)" "ruleTable x = NodeLocalTableNum"
    and l: "\<forall>y \<in> set rs2. ruleTable y \<noteq> NodeLocalTableNum"
  shows "realRulePriority (rulePriority x) \<le> realRulePriority (rulePriority r)"
proof -
  from x l have "x \<in> set rs1 \<or> x = r" by auto
  then show ?thesis
  proof
    assume "x \<in> set rs1"
    then show ?thesis using s by (auto simp: sorted_append)
  next
    assume "x = r"
    then show ?thesis by simp
  qed
qed

text \<open>
  C7. Whenever \<open>findHighestUnusedRulePriority\<close> returns without error, the priority lies
  between 0 and 32767, is the priority of no existing rule, and is strictly greater than
  the priority of the rule pointing at table 255: of the last such rule of the list, so of
  every such rule when the list is ordered by priority, as the kernel lists its rules. The
  priority of a rule is its real priority \<open>realRulePriority\<close>, 0 for a rule that netlink
  lists with the priority -1; so the number that netlink lists is not returned and lies
  below the result as well. With no rule pointing at table 255 the priority is greater
  than 0.
\<close>

theorem findHighestUnusedRulePriority_above_local:
  "fst (findHighestUnusedRulePriority k) = Inr p \<Longrightarrow>
   0 \<le> p \<and> p \<le> 32767 \<and>
   (\<forall>r \<in> set (kRules k). realRulePriority (rulePriority r) \<noteq> p \<and> rulePriority r \<noteq> p) \<and>
   (\<forall>rs1 r rs2. kRules k = rs1 @ r # rs2 \<and> ruleTable r = 255 \<and>
       (\<forall>x \<in> set rs2. ruleTable x \<noteq> 255) \<longrightarrow>
       realRulePriority (rulePriority r) < p \<and> rulePriority r < p) \<and>
   (sorted (map (\<lambda>r. realRulePriority (rulePriority r)) (kRules k)) \<longrightarrow>
       (\<forall>r \<in> set (kRules k). ruleTable r = 255 \<longrightarrow>
          realRulePriority (rulePriority r) < p \<and> rulePriority r < p)) \<and>
   ((\<forall>r \<in> set (kRules k). ruleTable r \<noteq> 255) \<longrightarrow> 0 < p)"
proof -
  assume a: "fst (findHighestUnusedRulePriority k) = Inr p"
  let ?s = "scanRules (kRules k) (Map.empty, 0)"
  have nf: "fst (RuleList k) = Inr (kRules k)"
    using a by (auto simp: findHighestUnusedRulePriority_def RuleList_def split: if_splits)
  then have lp: "priorityLoop (fst ?s) (snd ?s) 0 = Inr p"
    using a by (simp add: findHighestUnusedRulePriority_def)
  from priorityLoop_spec [OF lp]
  have p: "0 \<le> p" "p \<le> MaxRulePriority" "fst ?s p = None" "snd ?s < p" by simp_all
  have nd: "p \<notin> (\<lambda>r. realRulePriority (rulePriority r)) ` set (kRules k)"
  proof -
    have "p \<notin> dom (fst ?s)" using p(3) by (simp add: domIff)
    then show ?thesis unfolding scanRules_dom by simp
  qed
  have c1: "\<forall>r \<in> set (kRules k). realRulePriority (rulePriority r) \<noteq> p \<and> rulePriority r \<noteq> p"
  proof
    fix r assume r: "r \<in> set (kRules k)"
    then have *: "realRulePriority (rulePriority r) \<noteq> p" using nd by blast
    then have "rulePriority r \<noteq> p" using p(1) by (auto simp: realRulePriority_def split: if_splits)
    with * show "realRulePriority (rulePriority r) \<noteq> p \<and> rulePriority r \<noteq> p" by simp
  qed
  have le: "rulePriority r \<le> realRulePriority (rulePriority r)" for r :: Rule
    by (simp add: realRulePriority_def)
  have c2: "realRulePriority (rulePriority r) < p"
    if "kRules k = rs1 @ r # rs2" "ruleTable r = 255" "\<forall>x \<in> set rs2. ruleTable x \<noteq> 255" for rs1 r rs2
    using scanRules_last_local [of r rs2 rs1 Map.empty 0] that p(4)
    by (simp add: NodeLocalTableNum_def)
  have c3: "realRulePriority (rulePriority x) < p \<and> rulePriority x < p"
    if s: "sorted (map (\<lambda>r. realRulePriority (rulePriority r)) (kRules k))"
      and x: "x \<in> set (kRules k)" "ruleTable x = 255" for x
  proof -
    have "\<exists>r \<in> set (kRules k). ruleTable r = 255" using x by blast
    then obtain rs1 r rs2 where d: "kRules k = rs1 @ r # rs2" "ruleTable r = 255"
      "\<forall>y \<in> set rs2. ruleTable y \<noteq> 255"
      using split_list_last_prop [of "kRules k" "\<lambda>r. ruleTable r = 255"] by blast
    have "realRulePriority (rulePriority x) \<le> realRulePriority (rulePriority r)"
      using sorted_last_local_max [of rs1 r rs2 x] s x d by (simp add: NodeLocalTableNum_def)
    then show ?thesis using c2 [OF d] le [of x] by simp
  qed
  have c4: "0 < p" if "\<forall>r \<in> set (kRules k). ruleTable r \<noteq> 255"
  proof -
    have "snd ?s = 0" using scanRules_none [of "kRules k" Map.empty 0] that
      by (simp add: NodeLocalTableNum_def)
    then show ?thesis using p(4) by simp
  qed
  have c2': "realRulePriority (rulePriority r) < p \<and> rulePriority r < p"
    if "kRules k = rs1 @ r # rs2" "ruleTable r = 255" "\<forall>x \<in> set rs2. ruleTable x \<noteq> 255" for rs1 r rs2
    using c2 [OF that] le [of r] by simp
  show ?thesis
    using p(1,2) c1 c2' c3 c4 unfolding MaxRulePriority_def by blast
qed

lemma takeFault_fst: "fst (takeFault k) = faultAt k 0"
  by (cases "kFaults k") (simp_all add: takeFault_def faultAt_def)

lemma takeFault_faultAt: "faultAt (snd (takeFault k)) n = faultAt k (Suc n)"
  by (cases "kFaults k") (simp_all add: takeFault_def faultAt_def)

lemma takeFault_routes: "kRoutes (snd (takeFault k)) = kRoutes k"
  and takeFault_rules: "kRules (snd (takeFault k)) = kRules k"
  by (cases "kFaults k"; simp add: takeFault_def)+

lemma checkIfRouteTableEmpty_eq:
  "checkIfRouteTableEmpty i k =
     (if faultAt k 0 then Inl (Failed ''failed to list route for table'' KernelError)
      else Inr (filter (\<lambda>r. rtTable r = i) (kRoutes k) = []),
      snd (takeFault k))"
  by (simp add: checkIfRouteTableEmpty_def RouteListByTable_def takeFault_fst)

lemma tableLoop_spec:
  "(\<forall>t. fst (tableLoop i k) = Inr t \<longrightarrow>
      i \<le> t \<and> t < MaxRouteTableNum \<and> filter (\<lambda>r. rtTable r = t) (kRoutes k) = []) \<and>
   ((\<exists>e. fst (tableLoop i k) = Inl e) \<longleftrightarrow>
      (\<forall>u. i \<le> u \<and> u < MaxRouteTableNum \<longrightarrow> filter (\<lambda>r. rtTable r = u) (kRoutes k) \<noteq> []) \<or>
      (\<exists>t. i \<le> t \<and> t < MaxRouteTableNum \<and>
         (\<forall>u. i \<le> u \<and> u < t \<longrightarrow> filter (\<lambda>r. rtTable r = u) (kRoutes k) \<noteq> []) \<and>
         faultAt k (nat (t - i))))"
proof (induction i k rule: tableLoop.induct)
  case (1 i k)
  let ?ne = "\<lambda>k u. filter (\<lambda>r. rtTable r = u) (kRoutes k) \<noteq> []"
  let ?k' = "snd (takeFault k)"
  show ?case
  proof (cases "i < MaxRouteTableNum")
    case False
    then have "tableLoop i k = (Inl (Plain ''cannot find empty route table in range''), k)"
      by (subst tableLoop.simps) simp
    then show ?thesis using False by auto
  next
    case lt: True
    show ?thesis
    proof (cases "faultAt k 0")
      case True
      then have "fst (tableLoop i k) =
          Inl (Failed ''failed to check route table empty''
                 (Failed ''failed to list route for table'' KernelError))"
        using lt by (subst tableLoop.simps) (simp add: checkIfRouteTableEmpty_eq)
      moreover have "\<exists>t. i \<le> t \<and> t < MaxRouteTableNum \<and>
         (\<forall>u. i \<le> u \<and> u < t \<longrightarrow> ?ne k u) \<and> faultAt k (nat (t - i))"
        using True lt by (intro exI [of _ i]) auto
      ultimately show ?thesis by simp
    next
      case nf: False
      show ?thesis
      proof (cases "?ne k i")
        case False
        then have r: "fst (tableLoop i k) = Inr i"
          using lt nf by (subst tableLoop.simps) (simp add: checkIfRouteTableEmpty_eq)
        have a: "\<not> (\<forall>u. i \<le> u \<and> u < MaxRouteTableNum \<longrightarrow> ?ne k u)"
          using False lt by auto
        have b: "\<not> (\<exists>t. i \<le> t \<and> t < MaxRouteTableNum \<and>
           (\<forall>u. i \<le> u \<and> u < t \<longrightarrow> ?ne k u) \<and> faultAt k (nat (t - i)))"
        proof
          assume "\<exists>t. i \<le> t \<and> t < MaxRouteTableNum \<and>
           (\<forall>u. i \<le> u \<and> u < t \<longrightarrow> ?ne k u) \<and> faultAt k (nat (t - i))"
          then obtain t where t: "i \<le> t" "\<forall>u. i \<le> u \<and> u < t \<longrightarrow> ?ne k u" "faultAt k (nat (t - i))"
            by blast
          show False
          proof (cases "t = i")
            case True
            then show ?thesis using t(3) nf by simp
          next
            case False
            then have "i < t" using t(1) by simp
            then show ?thesis using t(2) \<open>\<not> ?ne k i\<close> by auto
          qed
        qed
        show ?thesis using r a b False lt by simp
      next
        case ne: True
        have rec: "tableLoop i k = tableLoop (i + 1) ?k'"
          using lt nf ne by (subst tableLoop.simps) (simp add: checkIfRouteTableEmpty_eq)
        have "fst (checkIfRouteTableEmpty i k) = Inr False" "snd (checkIfRouteTableEmpty i k) = ?k'"
          using nf ne by (simp_all add: checkIfRouteTableEmpty_eq)
        from "1.IH" [OF lt this(1)] this(2)
        have ih: "(\<forall>t. fst (tableLoop (i + 1) ?k') = Inr t \<longrightarrow>
            i + 1 \<le> t \<and> t < MaxRouteTableNum \<and> \<not> ?ne k t) \<and>
          ((\<exists>e. fst (tableLoop (i + 1) ?k') = Inl e) \<longleftrightarrow>
            (\<forall>u. i + 1 \<le> u \<and> u < MaxRouteTableNum \<longrightarrow> ?ne k u) \<or>
            (\<exists>t. i + 1 \<le> t \<and> t < MaxRouteTableNum \<and>
               (\<forall>u. i + 1 \<le> u \<and> u < t \<longrightarrow> ?ne k u) \<and> faultAt k (Suc (nat (t - (i + 1))))))"
          by (simp add: takeFault_routes takeFault_faultAt)
        have all: "(\<forall>u. i \<le> u \<and> u < m \<longrightarrow> ?ne k u) \<longleftrightarrow> (\<forall>u. i + 1 \<le> u \<and> u < m \<longrightarrow> ?ne k u)" for m
        proof
          assume "\<forall>u. i \<le> u \<and> u < m \<longrightarrow> ?ne k u"
          then show "\<forall>u. i + 1 \<le> u \<and> u < m \<longrightarrow> ?ne k u" by simp
        next
          assume h: "\<forall>u. i + 1 \<le> u \<and> u < m \<longrightarrow> ?ne k u"
          show "\<forall>u. i \<le> u \<and> u < m \<longrightarrow> ?ne k u"
          proof (intro allI impI)
            fix u assume "i \<le> u \<and> u < m"
            then have "u = i \<or> (i + 1 \<le> u \<and> u < m)" by auto
            then show "?ne k u" using ne h by blast
          qed
        qed
        have ex: "(\<exists>t. i \<le> t \<and> t < MaxRouteTableNum \<and>
             (\<forall>u. i \<le> u \<and> u < t \<longrightarrow> ?ne k u) \<and> faultAt k (nat (t - i))) \<longleftrightarrow>
           (\<exists>t. i + 1 \<le> t \<and> t < MaxRouteTableNum \<and>
             (\<forall>u. i + 1 \<le> u \<and> u < t \<longrightarrow> ?ne k u) \<and> faultAt k (Suc (nat (t - (i + 1)))))"
        proof
          assume "\<exists>t. i \<le> t \<and> t < MaxRouteTableNum \<and>
             (\<forall>u. i \<le> u \<and> u < t \<longrightarrow> ?ne k u) \<and> faultAt k (nat (t - i))"
          then obtain t where t: "i \<le> t" "t < MaxRouteTableNum"
            "\<forall>u. i \<le> u \<and> u < t \<longrightarrow> ?ne k u" "faultAt k (nat (t - i))" by blast
          have "t \<noteq> i" using t(4) nf by auto
          then have g: "i + 1 \<le> t" using t(1) by simp
          then have "Suc (nat (t - (i + 1))) = nat (t - i)" by simp
          then show "\<exists>t. i + 1 \<le> t \<and> t < MaxRouteTableNum \<and>
             (\<forall>u. i + 1 \<le> u \<and> u < t \<longrightarrow> ?ne k u) \<and> faultAt k (Suc (nat (t - (i + 1))))"
            using t g all [of t] by (intro exI [of _ t]) simp
        next
          assume "\<exists>t. i + 1 \<le> t \<and> t < MaxRouteTableNum \<and>
             (\<forall>u. i + 1 \<le> u \<and> u < t \<longrightarrow> ?ne k u) \<and> faultAt k (Suc (nat (t - (i + 1))))"
          then obtain t where t: "i + 1 \<le> t" "t < MaxRouteTableNum"
            "\<forall>u. i + 1 \<le> u \<and> u < t \<longrightarrow> ?ne k u" "faultAt k (Suc (nat (t - (i + 1))))" by blast
          have "Suc (nat (t - (i + 1))) = nat (t - i)" using t(1) by simp
          then show "\<exists>t. i \<le> t \<and> t < MaxRouteTableNum \<and>
             (\<forall>u. i \<le> u \<and> u < t \<longrightarrow> ?ne k u) \<and> faultAt k (nat (t - i))"
            using t all [of t] by (intro exI [of _ t]) simp
        qed
        show ?thesis
          unfolding rec all [of MaxRouteTableNum] ex using ih by auto
      qed
    qed
  qed
qed

theorem findHighestUnusedRulePriority_above_local_witness:
  "fst (findHighestUnusedRulePriority
      \<lparr>kRules = [\<lparr>ruleSrc = None, ruleTable = 255, rulePriority = - 1, ruleMark = 0, ruleMask = 0\<rparr>,
                 \<lparr>ruleSrc = None, ruleTable = 254, rulePriority = 32766, ruleMark = 0, ruleMask = 0\<rparr>,
                 \<lparr>ruleSrc = None, ruleTable = 253, rulePriority = 32767, ruleMark = 0, ruleMask = 0\<rparr>],
       kRoutes = [], kLinks = [], kAddrs = [], kFaults = [], kLog = []\<rparr>) = Inr 1 \<and>
   realRulePriority
     (rulePriority \<lparr>ruleSrc = None, ruleTable = 255, rulePriority = - 1, ruleMark = 0, ruleMask = 0\<rparr>) = 0 \<and>
   realRulePriority
     (rulePriority \<lparr>ruleSrc = None, ruleTable = 255, rulePriority = - 1, ruleMark = 0, ruleMask = 0\<rparr>) < 1"
proof -
  let ?r = "\<lparr>ruleSrc = None, ruleTable = 255, rulePriority = - 1, ruleMark = 0, ruleMask = 0\<rparr>"
  let ?rs = "[\<lparr>ruleSrc = None, ruleTable = 254, rulePriority = 32766, ruleMark = 0, ruleMask = 0\<rparr>,
              \<lparr>ruleSrc = None, ruleTable = 253, rulePriority = 32767, ruleMark = 0, ruleMask = 0\<rparr>]"
  let ?k = "\<lparr>kRules = ?r # ?rs, kRoutes = [], kLinks = [], kAddrs = [], kFaults = [], kLog = []\<rparr>"
  have ev: "fst (findHighestUnusedRulePriority ?k) = Inr 1" by code_simp
  have "kRules ?k = [] @ ?r # ?rs \<and> ruleTable ?r = 255 \<and> (\<forall>x \<in> set ?rs. ruleTable x \<noteq> 255)"
    by simp
  with findHighestUnusedRulePriority_above_local [OF ev]
  have lt: "realRulePriority (rulePriority ?r) < 1" by blast
  have z: "realRulePriority (rulePriority ?r) = 0" by (simp add: realRulePriority_def)
  show ?thesis using ev lt z by simp
qed

text \<open>
  C8, as the code has it. Whenever \<open>findEmptyRouteTable\<close> returns without error, the table
  lies in the pool from 10000 up to, not including, 40000 and held no route when it was
  scanned. It returns an error exactly when every table of the pool holds a route, or the
  kernel fails to list the routes of a table that the scan reaches (all tables of the pool
  before it hold routes).
\<close>

theorem findEmptyRouteTable_spec:
  "(\<forall>t. fst (findEmptyRouteTable k) = Inr t \<longrightarrow>
      10000 \<le> t \<and> t < 40000 \<and> filter (\<lambda>r. rtTable r = t) (kRoutes k) = []) \<and>
   ((\<exists>e. fst (findEmptyRouteTable k) = Inl e) \<longleftrightarrow>
      (\<forall>u. 10000 \<le> u \<and> u < 40000 \<longrightarrow> filter (\<lambda>r. rtTable r = u) (kRoutes k) \<noteq> []) \<or>
      (\<exists>t. 10000 \<le> t \<and> t < 40000 \<and>
         (\<forall>u. 10000 \<le> u \<and> u < t \<longrightarrow> filter (\<lambda>r. rtTable r = u) (kRoutes k) \<noteq> []) \<and>
         faultAt k (nat (t - 10000))))"
  using tableLoop_spec [of MinRouteTableNum k]
  unfolding findEmptyRouteTable_def MinRouteTableNum_def MaxRouteTableNum_def .

theorem findEmptyRouteTable_spec_witness:
  "fst (findEmptyRouteTable
      \<lparr>kRules = [],
       kRoutes = [\<lparr>rtDst = None, rtTable = 10000, rtLinkIndex = 2, rtScope = 0, rtGw = None,
                   rtSrc = None, rtType = 1\<rparr>],
       kLinks = [], kAddrs = [], kFaults = [], kLog = []\<rparr>) = Inr 10001 \<and>
   filter (\<lambda>r. rtTable r = 10001)
     [\<lparr>rtDst = None, rtTable = 10000, rtLinkIndex = 2, rtScope = 0, rtGw = None,
       rtSrc = None, rtType = 1\<rparr>] = []"
proof -
  let ?k = "\<lparr>kRules = [],
       kRoutes = [\<lparr>rtDst = None, rtTable = 10000, rtLinkIndex = 2, rtScope = 0, rtGw = None,
                   rtSrc = None, rtType = 1\<rparr>],
       kLinks = [], kAddrs = [], kFaults = [], kLog = []\<rparr>"
  have ev: "fst (findEmptyRouteTable ?k) = Inr 10001" by code_simp
  from findEmptyRouteTable_spec [of ?k] ev
  have "filter (\<lambda>r. rtTable r = 10001) (kRoutes ?k) = []" by blast
  with ev show ?thesis by simp
qed

text \<open>
  The claim C8 as stated fails: when the kernel fails to list the routes of table 10000, an
  error is returned although that table, like every other, holds no route.
\<close>

theorem findEmptyRouteTable_error_with_empty_tables:
  "fst (findEmptyRouteTable
      \<lparr>kRules = [], kRoutes = [], kLinks = [], kAddrs = [], kFaults = [True], kLog = []\<rparr>) =
     Inl (Failed ''failed to check route table empty''
            (Failed ''failed to list route for table'' KernelError)) \<and>
   filter (\<lambda>r. rtTable r = 10000)
     (kRoutes \<lparr>kRules = [], kRoutes = [], kLinks = [], kAddrs = [], kFaults = [True], kLog = []\<rparr>) = []"
  by code_simp

section \<open>Properties of the subnet rule and routes\<close>

lemma unchanged_refl: "unchanged k k"
  by (simp add: unchanged_def)

lemma unchanged_trans: "unchanged k k1 \<Longrightarrow> unchanged k1 k2 \<Longrightarrow> unchanged k k2"
  by (simp add: unchanged_def)

lemma takeFault_unchanged: "unchanged k (snd (takeFault k))"
  by (cases "kFaults k") (simp_all add: takeFault_def unchanged_def)

lemma routesOnly_iff:
  "routesOnly k k' \<longleftrightarrow>
     kRules k' = kRules k \<and> kLinks k' = kLinks k \<and> kAddrs k' = kAddrs k \<and>
     (\<exists>ops. kLog k' = kLog k @ ops \<and> list_all (\<lambda>op. \<not> isRuleAdded op) ops)"
  by (auto simp: routesOnly_def opsSince_def)

lemma routesOnly_refl: "routesOnly k k"
  by (simp add: routesOnly_iff)

lemma unchanged_routesOnly: "unchanged k k' \<Longrightarrow> routesOnly k k'"
  by (simp add: routesOnly_iff unchanged_def)

lemma routesOnly_trans: "routesOnly k k1 \<Longrightarrow> routesOnly k1 k2 \<Longrightarrow> routesOnly k k2"
proof -
  assume a: "routesOnly k k1" and b: "routesOnly k1 k2"
  from a obtain o1 where o1: "kLog k1 = kLog k @ o1" "list_all (\<lambda>op. \<not> isRuleAdded op) o1"
    unfolding routesOnly_iff by blast
  from b obtain o2 where o2: "kLog k2 = kLog k1 @ o2" "list_all (\<lambda>op. \<not> isRuleAdded op) o2"
    unfolding routesOnly_iff by blast
  have "kLog k2 = kLog k @ (o1 @ o2)" "list_all (\<lambda>op. \<not> isRuleAdded op) (o1 @ o2)"
    using o1 o2 by simp_all
  then have "\<exists>ops. kLog k2 = kLog k @ ops \<and> list_all (\<lambda>op. \<not> isRuleAdded op) ops" by blast
  then show ?thesis using a b unfolding routesOnly_iff by simp
qed

lemma RuleList_unchanged: "unchanged k (snd (RuleList k))"
  using takeFault_unchanged [of k] by (simp add: RuleList_def)

lemma RouteListByTable_unchanged: "unchanged k (snd (RouteListByTable t k))"
  using takeFault_unchanged [of k] by (simp add: RouteListByTable_def)

lemma RouteListByTableType_unchanged: "unchanged k (snd (RouteListByTableType t ty k))"
  using takeFault_unchanged [of k] by (simp add: RouteListByTableType_def)

lemma RouteListMain_unchanged: "unchanged k (snd (RouteListMain k))"
  using takeFault_unchanged [of k] by (simp add: RouteListMain_def)

lemma RouteListByOifDst_unchanged: "unchanged k (snd (RouteListByOifDst oif dst k))"
  using takeFault_unchanged [of k] by (simp add: RouteListByOifDst_def)

lemma AddrListAll_unchanged: "unchanged k (snd (AddrListAll k))"
  using takeFault_unchanged [of k] by (simp add: AddrListAll_def)

lemma LinkByName_unchanged: "unchanged k (snd (LinkByName name k))"
  using takeFault_unchanged [of k] by (simp add: LinkByName_def split: option.splits)

lemma RouteReplace_routesOnly: "routesOnly k (snd (RouteReplace r k))"
  using takeFault_unchanged [of k] by (simp add: RouteReplace_def routesOnly_iff unchanged_def)

lemma RouteDel_routesOnly: "routesOnly k (snd (RouteDel r k))"
  using takeFault_unchanged [of k] by (simp add: RouteDel_def routesOnly_iff unchanged_def)

lemma checkIfRuleExist_unchanged: "unchanged k (snd (checkIfRuleExist src t k))"
  using RuleList_unchanged [of k]
  by (cases "RuleList k") (simp add: checkIfRuleExist_def split: sum.splits)

lemma checkIfRuleExist_result:
  "checkIfRuleExist src t k = (Inr x, k1) \<Longrightarrow>
   x = find (\<lambda>rule. src = ruleSrc rule \<and> (if t > 0 then ruleTable rule = t else True)) (kRules k)"
  by (cases "t > 0"; cases "fst (takeFault k)") (auto simp: checkIfRuleExist_def RuleList_def)

lemma findHighestUnusedRulePriority_unchanged:
  "unchanged k (snd (findHighestUnusedRulePriority k))"
  using RuleList_unchanged [of k]
  by (simp add: findHighestUnusedRulePriority_def split: sum.splits)

lemma checkIfRouteTableEmpty_unchanged: "unchanged k (snd (checkIfRouteTableEmpty t k))"
  using RouteListByTable_unchanged [of k t]
  by (simp add: checkIfRouteTableEmpty_def split: sum.splits)

lemma tableLoop_unchanged: "unchanged k (snd (tableLoop i k))"
proof (induction i k rule: tableLoop.induct)
  case (1 i k)
  show ?case
  proof (cases "i < MaxRouteTableNum")
    case False
    then show ?thesis by (subst tableLoop.simps) (simp add: unchanged_refl)
  next
    case True
    note u = checkIfRouteTableEmpty_unchanged [of k i]
    show ?thesis
    proof (cases "fst (checkIfRouteTableEmpty i k)")
      case (Inl e)
      then show ?thesis using True u by (subst tableLoop.simps) simp
    next
      case (Inr b)
      show ?thesis
      proof (cases b)
        case True
        then show ?thesis using \<open>i < MaxRouteTableNum\<close> Inr u by (subst tableLoop.simps) simp
      next
        case False
        from "1.IH" [OF \<open>i < MaxRouteTableNum\<close> Inr False]
        have "unchanged (snd (checkIfRouteTableEmpty i k)) (snd (tableLoop (i + 1) (snd (checkIfRouteTableEmpty i k))))" .
        with u have "unchanged k (snd (tableLoop (i + 1) (snd (checkIfRouteTableEmpty i k))))"
          by (rule unchanged_trans)
        then show ?thesis using \<open>i < MaxRouteTableNum\<close> Inr False by (subst tableLoop.simps) simp
      qed
    qed
  qed
qed

lemma findEmptyRouteTable_unchanged: "unchanged k (snd (findEmptyRouteTable k))"
  by (simp add: findEmptyRouteTable_def tableLoop_unchanged)

lemma deleteExcludedRoutes_routesOnly: "routesOnly k (snd (deleteExcludedRoutes m rs k))"
proof (induction rs arbitrary: k)
  case Nil
  show ?case by (simp add: routesOnly_refl)
next
  case (Cons r rs)
  show ?case
    using RouteDel_routesOnly [of k r] Cons [of "snd (RouteDel r k)"] Cons [of k]
    by (auto split: prod.splits option.splits intro: routesOnly_trans)
qed

lemma addExcludedRoutes_routesOnly: "routesOnly k (snd (addExcludedRoutes t cs k))"
proof (induction cs arbitrary: k)
  case Nil
  show ?case by (simp add: routesOnly_refl)
next
  case (Cons c cs)
  let ?r = "\<lparr>rtDst = Some c, rtTable = t, rtLinkIndex = 0, rtScope = 0,
                         rtGw = None, rtSrc = None, rtType = RTN_THROW\<rparr>"
  show ?case
    using RouteReplace_routesOnly [of k ?r] Cons [of "snd (RouteReplace ?r k)"]
    by (auto split: prod.splits option.splits intro: routesOnly_trans)
qed

lemma deleteUselessRoutes_routesOnly: "routesOnly k (snd (deleteUselessRoutes rs k))"
proof (induction rs arbitrary: k)
  case Nil
  show ?case by (simp add: routesOnly_refl)
next
  case (Cons r rs)
  show ?case
    using RouteDel_routesOnly [of k r] Cons [of "snd (RouteDel r k)"] Cons [of k]
    by (auto split: prod.splits option.splits intro: routesOnly_trans)
qed

lemma deleteNonUnderlayRoutes_routesOnly:
  "routesOnly k (snd (deleteNonUnderlayRoutes family m rs k))"
proof (induction rs arbitrary: k)
  case Nil
  show ?case by (simp add: routesOnly_refl)
next
  case (Cons r rs)
  let ?r = "if rtDst r \<noteq> None then r else r\<lparr>rtDst := Some (defaultRouteDstByFamily family)\<rparr>"
  show ?case
    using RouteDel_routesOnly [of k ?r] Cons [of "snd (RouteDel ?r k)"] Cons [of k]
    by (auto split: prod.splits option.splits intro: routesOnly_trans simp del: not_None_eq)
qed

lemma setUnderlayRoutes_routesOnly: "routesOnly k (snd (setUnderlayRoutes l t ss k))"
proof (induction ss arbitrary: k)
  case Nil
  show ?case by (simp add: routesOnly_refl)
next
  case (Cons s ss)
  let ?r = "\<lparr>rtDst = siCidr s, rtTable = t, rtLinkIndex = linkIndex l,
                         rtScope = SCOPE_UNIVERSE, rtGw = None, rtSrc = None, rtType = 0\<rparr>"
  show ?case
    using RouteReplace_routesOnly [of k ?r] Cons [of "snd (RouteReplace ?r k)"]
    by (auto split: prod.splits option.splits intro: routesOnly_trans)
qed


lemma ensureExcludedIPBlockRoutes_routesOnly:
  "routesOnly k (snd (ensureExcludedIPBlockRoutes m t k))"
proof -
  obtain x k1 where l: "RouteListByTableType t RTN_THROW k = (x, k1)" by (cases "RouteListByTableType t RTN_THROW k")
  have u1: "routesOnly k k1"
    using RouteListByTableType_unchanged [of k t RTN_THROW] l by (simp add: unchanged_routesOnly)
  show ?thesis
  proof (cases x)
    case (Inl e)
    then show ?thesis using l u1 by (simp add: ensureExcludedIPBlockRoutes_def)
  next
    case (Inr rs)
    obtain y k2 where d: "deleteExcludedRoutes m rs k1 = (y, k2)" by (cases "deleteExcludedRoutes m rs k1")
    have u2: "routesOnly k k2"
      using routesOnly_trans [OF u1 deleteExcludedRoutes_routesOnly [of k1 m rs]] d by simp
    show ?thesis
    proof (cases y)
      case (Some e)
      then show ?thesis using l Inr d u2 by (simp add: ensureExcludedIPBlockRoutes_def)
    next
      case None
      then show ?thesis
        using l Inr d routesOnly_trans [OF u2 addExcludedRoutes_routesOnly [of k2 t "map snd m"]]
        by (simp add: ensureExcludedIPBlockRoutes_def)
    qed
  qed
qed

lemma ensureRoutesForVxlanSubnet_routesOnly:
  "routesOnly k (snd (ensureRoutesForVxlanSubnet l cidr t an fam um em k))"
proof -
  obtain x k1 where li: "RouteListByTable t k = (x, k1)" by (cases "RouteListByTable t k")
  have u1: "routesOnly k k1"
    using RouteListByTable_unchanged [of k t] li by (simp add: unchanged_routesOnly)
  show ?thesis
  proof (cases x)
    case (Inl e)
    then show ?thesis using li u1 by (simp add: ensureRoutesForVxlanSubnet_def)
  next
    case (Inr rs)
    show ?thesis
    proof (cases an)
      case False
      let ?r = "\<lparr>rtDst = Some (defaultRouteDstByFamily fam), rtTable = t,
                                rtLinkIndex = linkIndex l, rtScope = SCOPE_UNIVERSE,
                                rtGw = None, rtSrc = None, rtType = 0\<rparr>"
      obtain y k2 where r: "RouteReplace ?r k1 = (y, k2)" by (cases "RouteReplace ?r k1")
      have u2: "routesOnly k k2"
        using routesOnly_trans [OF u1 RouteReplace_routesOnly [of k1 ?r]] r by simp
      show ?thesis
      proof (cases y)
        case (Some e)
        then show ?thesis using li Inr False r u2 by (simp add: ensureRoutesForVxlanSubnet_def)
      next
        case None
        then show ?thesis
          using li Inr False r routesOnly_trans [OF u2 deleteUselessRoutes_routesOnly [of k2 rs]]
          by (simp add: ensureRoutesForVxlanSubnet_def)
      qed
    next
      case True
      obtain y k2 where d: "deleteNonUnderlayRoutes fam um rs k1 = (y, k2)"
        by (cases "deleteNonUnderlayRoutes fam um rs k1")
      have u2: "routesOnly k k2"
        using routesOnly_trans [OF u1 deleteNonUnderlayRoutes_routesOnly [of k1 fam um rs]] d by simp
      show ?thesis
      proof (cases y)
        case (Some e)
        then show ?thesis using li Inr True d u2 by (simp add: ensureRoutesForVxlanSubnet_def)
      next
        case None
        obtain z k3 where s: "setUnderlayRoutes l t (map snd um) k2 = (z, k3)"
          by (cases "setUnderlayRoutes l t (map snd um) k2")
        have u3: "routesOnly k k3"
          using routesOnly_trans [OF u2 setUnderlayRoutes_routesOnly [of k2 l t "map snd um"]] s by simp
        show ?thesis
        proof (cases z)
          case (Some e)
          then show ?thesis using li Inr True d None s u3 by (simp add: ensureRoutesForVxlanSubnet_def)
        next
          case n: None
          obtain w k4 where e: "ensureExcludedIPBlockRoutes em t k3 = (w, k4)"
            by (cases "ensureExcludedIPBlockRoutes em t k3")
          have u4: "routesOnly k k4"
            using routesOnly_trans [OF u3 ensureExcludedIPBlockRoutes_routesOnly [of k3 em t]] e by simp
          show ?thesis using li Inr True d None s n e u4
            by (cases w) (simp_all add: ensureRoutesForVxlanSubnet_def)
        qed
      qed
    qed
  qed
qed

lemma GetDefaultRoute_unchanged: "unchanged k (snd (GetDefaultRoute k))"
  using RouteListMain_unchanged [of k]
  by (cases "RouteListMain k") (simp add: GetDefaultRoute_def split: sum.splits)

lemma ensureRoutesForBGPSubnet_routesOnly:
  "routesOnly k (snd (ensureRoutesForBGPSubnet l cidr t gw k))"
proof -
  let ?r = "\<lparr>rtDst = None, rtTable = t, rtLinkIndex = linkIndex l,
                         rtScope = SCOPE_UNIVERSE, rtGw = gw, rtSrc = None, rtType = 0\<rparr>"
  show ?thesis using RouteReplace_routesOnly [of k ?r]
    by (cases "RouteReplace ?r k") (simp add: ensureRoutesForBGPSubnet_def split: option.splits)
qed

lemma vlanRoutes_routesOnly:
  assumes "routesOnly k k4"
  shows "routesOnly k (snd (case RouteReplace r1 k4 of
                    (Some err, k5) \<Rightarrow> (Some (Failed m1 err), k5)
                  | (None, k5) \<Rightarrow>
                      (case RouteReplace r2 k5 of
                         (Some err, k6) \<Rightarrow> (Some (Failed m2 err), k6)
                       | (None, k6) \<Rightarrow> (None, k6))))"
proof -
  obtain y k5 where a: "RouteReplace r1 k4 = (y, k5)" by (cases "RouteReplace r1 k4")
  have u5: "routesOnly k k5" using routesOnly_trans [OF assms RouteReplace_routesOnly [of k4 r1]] a by simp
  obtain z k6 where b: "RouteReplace r2 k5 = (z, k6)" by (cases "RouteReplace r2 k5")
  have u6: "routesOnly k k6" using routesOnly_trans [OF u5 RouteReplace_routesOnly [of k5 r2]] b by simp
  show ?thesis using a b u5 u6 by (cases y; cases z) simp_all
qed

lemma ensureRoutesForVlanSubnet_routesOnly:
  "routesOnly k (snd (ensureRoutesForVlanSubnet l cidr gw t fam k))"
proof -
  obtain x k1 where al: "AddrListAll k = (x, k1)" by (cases "AddrListAll k")
  have u1: "routesOnly k k1"
    using AddrListAll_unchanged [of k] al by (simp add: unchanged_routesOnly)
  show ?thesis
  proof (cases x)
    case (Inl e)
    then show ?thesis using al u1 by (simp add: ensureRoutesForVlanSubnet_def)
  next
    case (Inr as)
    show ?thesis
    proof (cases "containsIP (familyBits fam) cidr gw")
      case False
      then show ?thesis using al Inr u1 by (simp add: ensureRoutesForVlanSubnet_def)
    next
      case True
      let ?pre = "(if list_ex (\<lambda>address. Contains (familyBits fam) cidr (addrIP address) \<and>
                                   addrFlags address AND IFA_F_NOPREFIXROUTE = 0) as
                   then
                     (case GetDefaultRoute k1 of
                        (Inl err, k2) \<Rightarrow> (Inl (Failed ''failed to get default route'' err), k2)
                      | (Inr defaultRoute, k2) \<Rightarrow>
                          if (case defaultRoute of None \<Rightarrow> False
                              | Some r \<Rightarrow> rtLinkIndex r = linkIndex l \<and> rtGw r \<noteq> None \<and>
                                          rtGw r \<noteq> gw)
                          then (Inl (Plain ''exist default route of forward interface has a different gateway''), k2)
                          else
                            (case RouteListByOifDst (linkIndex l) cidr k2 of
                               (Inl err, k3) \<Rightarrow> (Inl (Failed ''failed to list direct route'' err), k3)
                             | (Inr directRouteList, k3) \<Rightarrow>
                                 if length directRouteList = 0
                                 then (Inl (Plain ''forward interface should have direct route for local subnet''), k3)
                                 else (Inr (rtSrc (hd directRouteList)), k3)))
                   else (Inr None, k1))"
      obtain y k4 where p: "?pre = (y, k4)" by (cases ?pre)
      have u4: "unchanged k1 k4"
      proof -
        obtain d k2 where g: "GetDefaultRoute k1 = (d, k2)" by (cases "GetDefaultRoute k1")
        have g2: "unchanged k1 k2" using GetDefaultRoute_unchanged [of k1] g by simp
        obtain dl k3 where r: "RouteListByOifDst (linkIndex l) cidr k2 = (dl, k3)"
          by (cases "RouteListByOifDst (linkIndex l) cidr k2")
        have g3: "unchanged k1 k3"
          using unchanged_trans [OF g2 RouteListByOifDst_unchanged [of k2 "linkIndex l" cidr]] r by simp
        show ?thesis using p g r g2 g3 unchanged_refl [of k1]
          by (auto split: if_splits sum.splits option.splits)
      qed
      have u4': "routesOnly k k4" using routesOnly_trans [OF u1 unchanged_routesOnly [OF u4]] .
      show ?thesis
      proof (cases y)
        case (Inl e)
        then show ?thesis using al Inr True p u4'
          by (simp add: ensureRoutesForVlanSubnet_def del: list_ex_iff)
      next
        case r: (Inr src)
        show ?thesis using al Inr True p r vlanRoutes_routesOnly [OF u4']
          by (simp add: ensureRoutesForVlanSubnet_def del: list_ex_iff)
      qed
    qed
  qed
qed

lemma ensureRoutesByMode_routesOnly:
  "routesOnly k (snd (ensureRoutesByMode l cidr gw t an fam um em mode k))"
proof (cases mode)
  case NetworkModeVxlan
  then show ?thesis using ensureRoutesForVxlanSubnet_routesOnly [of k l cidr t an fam um em]
    by (cases "ensureRoutesForVxlanSubnet l cidr t an fam um em k")
       (simp add: ensureRoutesByMode_def split: option.splits)
next
  case NetworkModeVlan
  then show ?thesis using ensureRoutesForVlanSubnet_routesOnly [of k l cidr gw t fam]
    by (cases "ensureRoutesForVlanSubnet l cidr gw t fam k")
       (simp add: ensureRoutesByMode_def split: option.splits)
next
  case NetworkModeBGP
  then show ?thesis using ensureRoutesForBGPSubnet_routesOnly [of k l cidr t gw]
    by (cases "ensureRoutesForBGPSubnet l cidr t gw k")
       (simp add: ensureRoutesByMode_def split: option.splits)
next
  case NetworkModeGlobalBGP
  then show ?thesis using ensureRoutesForBGPSubnet_routesOnly [of k l cidr t gw]
    by (cases "ensureRoutesForBGPSubnet l cidr t gw k")
       (simp add: ensureRoutesByMode_def split: option.splits)
next
  case (NetworkModeOther n)
  then show ?thesis by (simp add: ensureRoutesByMode_def routesOnly_refl)
qed

lemma set_insert_by_priority:
  "set (takeWhile P xs @ [x] @ dropWhile P xs) = insert x (set xs)"
proof -
  have "set (takeWhile P xs) \<union> set (dropWhile P xs) = set (takeWhile P xs @ dropWhile P xs)"
    by (simp only: set_append)
  also have "\<dots> = set xs" by (simp only: takeWhile_dropWhile_id)
  finally show ?thesis by simp
qed

lemma RuleAdd_cases:
  "RuleAdd rule k = (res, k') \<Longrightarrow>
   (res \<noteq> None \<and> unchanged k k') \<or>
   (res = None \<and> kLog k' = kLog k @ [RuleAdded rule] \<and> kRoutes k' = kRoutes k \<and>
    kLinks k' = kLinks k \<and> kAddrs k' = kAddrs k \<and>
    set (kRules k') = insert rule (set (kRules k)))"
proof -
  assume a: "RuleAdd rule k = (res, k')"
  note u = takeFault_unchanged [of k]
  show ?thesis
  proof (cases "fst (takeFault k)")
    case True
    then have "res = Some KernelError" "k' = snd (takeFault k)" using a by (simp_all add: RuleAdd_def)
    then show ?thesis using u by simp
  next
    case False
    let ?P = "\<lambda>x. realRulePriority (rulePriority x) \<le> rulePriority rule"
    have r: "res = None" and k': "k' = (snd (takeFault k))
              \<lparr>kRules := takeWhile ?P (kRules k) @ [rule] @ dropWhile ?P (kRules k),
               kLog := kLog k @ [RuleAdded rule]\<rparr>"
      using a False by (simp_all add: RuleAdd_def)
    have "kLog k' = kLog k @ [RuleAdded rule]" "kRoutes k' = kRoutes k"
      "kLinks k' = kLinks k" "kAddrs k' = kAddrs k"
      using u unfolding k' unchanged_def by simp_all
    moreover have "kRules k' = takeWhile ?P (kRules k) @ [rule] @ dropWhile ?P (kRules k)"
      unfolding k' by simp
    then have "set (kRules k') = insert rule (set (kRules k))"
      by (simp only: set_insert_by_priority)
    ultimately show ?thesis using r by simp
  qed
qed

lemma appendHighestUnusedPriorityRuleIfNotExist_cases:
  "appendHighestUnusedPriorityRuleIfNotExist src t mark maskBits k = (res, k') \<Longrightarrow>
   unchanged k k' \<or>
   (res = None \<and>
    (\<exists>rule. ruleSrc rule = src \<and> ruleTable rule = t \<and> ruleMark rule = mark \<and> ruleMask rule = maskBits \<and>
       kLog k' = kLog k @ [RuleAdded rule] \<and> kRoutes k' = kRoutes k \<and>
       kLinks k' = kLinks k \<and> kAddrs k' = kAddrs k \<and>
       set (kRules k') = insert rule (set (kRules k))))"
proof -
  assume a: "appendHighestUnusedPriorityRuleIfNotExist src t mark maskBits k = (res, k')"
  obtain x k1 where c: "checkIfRuleExist src t k = (x, k1)" by (cases "checkIfRuleExist src t k")
  have u1: "unchanged k k1" using checkIfRuleExist_unchanged [of k src t] c by simp
  show ?thesis
  proof (cases x)
    case (Inl e)
    then show ?thesis using a c u1 by (auto simp: appendHighestUnusedPriorityRuleIfNotExist_def)
  next
    case (Inr ex)
    show ?thesis
    proof (cases ex)
      case (Some r)
      then show ?thesis using a c Inr u1 by (auto simp: appendHighestUnusedPriorityRuleIfNotExist_def)
    next
      case None
      obtain y k2 where f: "findHighestUnusedRulePriority k1 = (y, k2)"
        by (cases "findHighestUnusedRulePriority k1")
      have u2: "unchanged k k2"
        using unchanged_trans [OF u1 findHighestUnusedRulePriority_unchanged [of k1]] f by simp
      show ?thesis
      proof (cases y)
        case (Inl e)
        then show ?thesis using a c Inr None f u2
          by (auto simp: appendHighestUnusedPriorityRuleIfNotExist_def)
      next
        case p: (Inr priority)
        let ?rule = "\<lparr>ruleSrc = src, ruleTable = t, rulePriority = priority,
                              ruleMark = mark, ruleMask = maskBits\<rparr>"
        obtain z k3 where r: "RuleAdd ?rule k2 = (z, k3)" by (cases "RuleAdd ?rule k2")
        have k': "k' = k3" "res = (case z of None \<Rightarrow> None | Some err \<Rightarrow> Some (Failed ''failed to add policy rule'' err))"
          using a c Inr None f p r
          by (auto simp: appendHighestUnusedPriorityRuleIfNotExist_def split: option.splits)
        from RuleAdd_cases [OF r] show ?thesis
        proof
          assume "z \<noteq> None \<and> unchanged k2 k3"
          then show ?thesis using unchanged_trans [OF u2] k' by simp
        next
          assume b: "z = None \<and> kLog k3 = kLog k2 @ [RuleAdded ?rule] \<and> kRoutes k3 = kRoutes k2 \<and>
            kLinks k3 = kLinks k2 \<and> kAddrs k3 = kAddrs k2 \<and>
            set (kRules k3) = insert ?rule (set (kRules k2))"
          have "ruleSrc ?rule = src \<and> ruleTable ?rule = t \<and> ruleMark ?rule = mark \<and> ruleMask ?rule = maskBits \<and>
             kLog k' = kLog k @ [RuleAdded ?rule] \<and> kRoutes k' = kRoutes k \<and>
             kLinks k' = kLinks k \<and> kAddrs k' = kAddrs k \<and>
             set (kRules k') = insert ?rule (set (kRules k))"
            using b u2 k' by (simp add: unchanged_def)
          then have "\<exists>rule. ruleSrc rule = src \<and> ruleTable rule = t \<and> ruleMark rule = mark \<and> ruleMask rule = maskBits \<and>
             kLog k' = kLog k @ [RuleAdded rule] \<and> kRoutes k' = kRoutes k \<and>
             kLinks k' = kLinks k \<and> kAddrs k' = kAddrs k \<and>
             set (kRules k') = insert rule (set (kRules k))" by (rule exI)
          moreover have "res = None" using b k' by simp
          ultimately show ?thesis by blast
        qed
      qed
    qed
  qed
qed

text \<open>
  C6. In every execution of \<open>ensureFromPodSubnetRuleAndRoutes\<close>, whatever the kernel makes
  fail: either no rule is added (the rules are as before and the log of the call holds no
  added rule), or the call returns without error, no rule with the source \<open>cidr\<close> existed
  at the start, the route operations of the mode for the table had returned without error
  before, and the added rule, for \<open>cidr\<close> and that table, is the last mutation of the call,
  after every route operation. In particular a call that returns an error, so a call
  whose route step returns an error, has added no rule.
\<close>

theorem ensureFromPodSubnetRuleAndRoutes_rule_last:
  "ensureFromPodSubnetRuleAndRoutes fromRuleMask forwardNodeIfName cidr gateway autoNatOutgoing family
       underlaySubnetInfoMap underlayExcludeIPBlockMap mode k = (res, k') \<Longrightarrow>
   (routesOnly k k' \<or>
    (res = None \<and>
     (\<forall>r \<in> set (kRules k). ruleSrc r \<noteq> Some cidr) \<and>
     (\<exists>forwardLink tableNum k3 k4 rule.
        unchanged k k3 \<and>
        ensureRoutesByMode forwardLink cidr gateway tableNum autoNatOutgoing family
          underlaySubnetInfoMap underlayExcludeIPBlockMap mode k3 = (None, k4) \<and>
        routesOnly k k4 \<and>
        kLog k' = kLog k4 @ [RuleAdded rule] \<and>
        kRoutes k' = kRoutes k4 \<and>
        ruleSrc rule = Some cidr \<and> ruleTable rule = tableNum \<and>
        set (kRules k') = insert rule (set (kRules k))))) \<and>
   (res \<noteq> None \<longrightarrow> routesOnly k k')"
proof -
  assume a: "ensureFromPodSubnetRuleAndRoutes fromRuleMask forwardNodeIfName cidr gateway autoNatOutgoing family
       underlaySubnetInfoMap underlayExcludeIPBlockMap mode k = (res, k')"
  let ?B = "res = None \<and>
     (\<forall>r \<in> set (kRules k). ruleSrc r \<noteq> Some cidr) \<and>
     (\<exists>forwardLink tableNum k3 k4 rule.
        unchanged k k3 \<and>
        ensureRoutesByMode forwardLink cidr gateway tableNum autoNatOutgoing family
          underlaySubnetInfoMap underlayExcludeIPBlockMap mode k3 = (None, k4) \<and>
        routesOnly k k4 \<and>
        kLog k' = kLog k4 @ [RuleAdded rule] \<and>
        kRoutes k' = kRoutes k4 \<and>
        ruleSrc rule = Some cidr \<and> ruleTable rule = tableNum \<and>
        set (kRules k') = insert rule (set (kRules k)))"
  have main: "routesOnly k k' \<or> ?B"
  proof -
    obtain x k1 where c: "checkIfRuleExist (Some cidr) (- 1) k = (x, k1)"
      by (cases "checkIfRuleExist (Some cidr) (- 1) k")
    have u1: "unchanged k k1" using checkIfRuleExist_unchanged [of k "Some cidr" "- 1"] c by simp
    show ?thesis
    proof (cases x)
      case (Inl e)
      then have "k' = k1" using a c by (simp add: ensureFromPodSubnetRuleAndRoutes_def)
      then show ?thesis using u1 by (simp add: unchanged_routesOnly)
    next
      case (Inr existRule)
      have ex: "existRule = find (\<lambda>rule. Some cidr = ruleSrc rule) (kRules k)"
        using checkIfRuleExist_result [of "Some cidr" "- 1" k existRule k1] c Inr by simp
      let ?tab = "case existRule of None \<Rightarrow> findEmptyRouteTable k1
                 | Some rule \<Rightarrow> (Inr (ruleTable rule), k1)"
      obtain y k2 where t: "?tab = (y, k2)" by (cases ?tab)
      have "unchanged k1 k2"
        using t findEmptyRouteTable_unchanged [of k1] unchanged_refl [of k1]
        by (cases existRule) auto
      with u1 have u2: "unchanged k k2" by (rule unchanged_trans)
      show ?thesis
      proof (cases y)
        case (Inl e)
        then have "k' = k2" using a c Inr t by (simp add: ensureFromPodSubnetRuleAndRoutes_def)
        then show ?thesis using u2 by (simp add: unchanged_routesOnly)
      next
        case tn: (Inr tableNum)
        obtain z k3 where l: "LinkByName forwardNodeIfName k2 = (z, k3)"
          by (cases "LinkByName forwardNodeIfName k2")
        have u3: "unchanged k k3"
          using unchanged_trans [OF u2 LinkByName_unchanged [of k2 forwardNodeIfName]] l by simp
        show ?thesis
        proof (cases z)
          case (Inl e)
          then have "k' = k3" using a c Inr t tn l by (simp add: ensureFromPodSubnetRuleAndRoutes_def)
          then show ?thesis using u3 by (simp add: unchanged_routesOnly)
        next
          case fl: (Inr forwardLink)
          obtain w k4 where m: "ensureRoutesByMode forwardLink cidr gateway tableNum autoNatOutgoing family
                            underlaySubnetInfoMap underlayExcludeIPBlockMap mode k3 = (w, k4)"
            by (cases "ensureRoutesByMode forwardLink cidr gateway tableNum autoNatOutgoing family
                            underlaySubnetInfoMap underlayExcludeIPBlockMap mode k3")
          have "routesOnly k3 k4"
            using ensureRoutesByMode_routesOnly [of k3 forwardLink cidr gateway tableNum autoNatOutgoing
                family underlaySubnetInfoMap underlayExcludeIPBlockMap mode] m by simp
          with unchanged_routesOnly [OF u3] have u4: "routesOnly k k4" by (rule routesOnly_trans)
          show ?thesis
          proof (cases w)
            case (Some e)
            then have "k' = k4" using a c Inr t tn l fl m
              by (simp add: ensureFromPodSubnetRuleAndRoutes_def)
            then show ?thesis using u4 by simp
          next
            case None
            show ?thesis
            proof (cases existRule)
              case (Some r)
              then have "k' = k4" using a c Inr t tn l fl m None
                by (simp add: ensureFromPodSubnetRuleAndRoutes_def)
              then show ?thesis using u4 by simp
            next
              case nr: None
              obtain v k5 where ap: "appendHighestUnusedPriorityRuleIfNotExist (Some cidr) tableNum
                                   fromRuleMark fromRuleMask k4 = (v, k5)"
                by (cases "appendHighestUnusedPriorityRuleIfNotExist (Some cidr) tableNum
                                   fromRuleMark fromRuleMask k4")
              have k': "k' = k5" using a c Inr t tn l fl m None nr ap
                by (cases v) (simp_all add: ensureFromPodSubnetRuleAndRoutes_def)
              have res: "v = None \<Longrightarrow> res = None" using a c Inr t tn l fl m None nr ap
                by (simp add: ensureFromPodSubnetRuleAndRoutes_def)
              have none: "\<forall>r \<in> set (kRules k). ruleSrc r \<noteq> Some cidr"
              proof -
                have "find (\<lambda>rule. Some cidr = ruleSrc rule) (kRules k) = None" using ex nr by simp
                then show ?thesis unfolding find_None_iff by auto
              qed
              from appendHighestUnusedPriorityRuleIfNotExist_cases [OF ap]
              show ?thesis
              proof
                assume "unchanged k4 k5"
                then have "routesOnly k k'"
                  using routesOnly_trans [OF u4 unchanged_routesOnly] k' by simp
                then show ?thesis ..
              next
                assume b: "v = None \<and>
                  (\<exists>rule. ruleSrc rule = Some cidr \<and> ruleTable rule = tableNum \<and>
                     ruleMark rule = fromRuleMark \<and> ruleMask rule = fromRuleMask \<and>
                     kLog k5 = kLog k4 @ [RuleAdded rule] \<and> kRoutes k5 = kRoutes k4 \<and>
                     kLinks k5 = kLinks k4 \<and> kAddrs k5 = kAddrs k4 \<and>
                     set (kRules k5) = insert rule (set (kRules k4)))"
                then obtain rule where rule: "ruleSrc rule = Some cidr" "ruleTable rule = tableNum"
                  "kLog k5 = kLog k4 @ [RuleAdded rule]" "kRoutes k5 = kRoutes k4"
                  "set (kRules k5) = insert rule (set (kRules k4))" by blast
                have r4: "kRules k4 = kRules k" using u4 by (simp add: routesOnly_def)
                have "unchanged k k3 \<and>
                  ensureRoutesByMode forwardLink cidr gateway tableNum autoNatOutgoing family
                    underlaySubnetInfoMap underlayExcludeIPBlockMap mode k3 = (None, k4) \<and>
                  routesOnly k k4 \<and>
                  kLog k' = kLog k4 @ [RuleAdded rule] \<and>
                  kRoutes k' = kRoutes k4 \<and>
                  ruleSrc rule = Some cidr \<and> ruleTable rule = tableNum \<and>
                  set (kRules k') = insert rule (set (kRules k))"
                  using u3 m None u4 rule k' r4 by simp
                then have "\<exists>forwardLink tableNum k3 k4 rule. unchanged k k3 \<and>
                  ensureRoutesByMode forwardLink cidr gateway tableNum autoNatOutgoing family
                    underlaySubnetInfoMap underlayExcludeIPBlockMap mode k3 = (None, k4) \<and>
                  routesOnly k k4 \<and>
                  kLog k' = kLog k4 @ [RuleAdded rule] \<and>
                  kRoutes k' = kRoutes k4 \<and>
                  ruleSrc rule = Some cidr \<and> ruleTable rule = tableNum \<and>
                  set (kRules k') = insert rule (set (kRules k))" by blast
                then have ?B using res b none by simp
                then show ?thesis ..
              qed
            qed
          qed
        qed
      qed
    qed
  qed
  have "res \<noteq> None \<longrightarrow> routesOnly k k'" using main by blast
  with main show ?thesis by simp
qed

lemma rule_last_run_ok:
  "ensureFromPodSubnetRuleAndRoutes 0 ''eth0'' \<lparr>netIP = 167772160, netOnes = 24\<rparr> (Some 167772161)
     False 2 [] [] NetworkModeVlan
     \<lparr>kRules = [\<lparr>ruleSrc = None, ruleTable = 255, rulePriority = 0, ruleMark = 0, ruleMask = 0\<rparr>,
                \<lparr>ruleSrc = None, ruleTable = 254, rulePriority = 32766, ruleMark = 0, ruleMask = 0\<rparr>],
      kRoutes = [], kLinks = [\<lparr>linkName = ''eth0'', linkIndex = 2\<rparr>], kAddrs = [],
      kFaults = [], kLog = []\<rparr> =
   (None,
    \<lparr>kRules = [\<lparr>ruleSrc = None, ruleTable = 255, rulePriority = 0, ruleMark = 0, ruleMask = 0\<rparr>,
               \<lparr>ruleSrc = Some \<lparr>netIP = 167772160, netOnes = 24\<rparr>, ruleTable = 10000,
                  rulePriority = 1, ruleMark = 0, ruleMask = 0\<rparr>,
               \<lparr>ruleSrc = None, ruleTable = 254, rulePriority = 32766, ruleMark = 0, ruleMask = 0\<rparr>],
     kRoutes = [\<lparr>rtDst = Some \<lparr>netIP = 167772160, netOnes = 24\<rparr>, rtTable = 10000,
                  rtLinkIndex = 2, rtScope = 253, rtGw = None, rtSrc = None, rtType = 1\<rparr>,
                \<lparr>rtDst = None, rtTable = 10000, rtLinkIndex = 2, rtScope = 0,
                  rtGw = Some 167772161, rtSrc = None, rtType = 1\<rparr>],
     kLinks = [\<lparr>linkName = ''eth0'', linkIndex = 2\<rparr>], kAddrs = [], kFaults = [],
     kLog = [RouteReplaced \<lparr>rtDst = Some \<lparr>netIP = 167772160, netOnes = 24\<rparr>, rtTable = 10000,
                rtLinkIndex = 2, rtScope = 253, rtGw = None, rtSrc = None, rtType = 0\<rparr>,
             RouteReplaced \<lparr>rtDst = None, rtTable = 10000, rtLinkIndex = 2, rtScope = 0,
                rtGw = Some 167772161, rtSrc = None, rtType = 0\<rparr>,
             RuleAdded \<lparr>ruleSrc = Some \<lparr>netIP = 167772160, netOnes = 24\<rparr>,
                ruleTable = 10000, rulePriority = 1, ruleMark = 0, ruleMask = 0\<rparr>]\<rparr>)"
  by code_simp

lemma rule_last_run_fails:
  "ensureFromPodSubnetRuleAndRoutes 0 ''eth0'' \<lparr>netIP = 167772160, netOnes = 24\<rparr> (Some 167772161)
     False 2 [] [] NetworkModeVlan
     \<lparr>kRules = [\<lparr>ruleSrc = None, ruleTable = 255, rulePriority = 0, ruleMark = 0, ruleMask = 0\<rparr>,
                \<lparr>ruleSrc = None, ruleTable = 254, rulePriority = 32766, ruleMark = 0, ruleMask = 0\<rparr>],
      kRoutes = [], kLinks = [\<lparr>linkName = ''eth0'', linkIndex = 2\<rparr>], kAddrs = [],
      kFaults = [False, False, False, False, False, True], kLog = []\<rparr> =
   (Some (Failed ''failed to ensure routes for vlan subnet''
            (Failed ''failed to add vlan subnet default route'' KernelError)),
    \<lparr>kRules = [\<lparr>ruleSrc = None, ruleTable = 255, rulePriority = 0, ruleMark = 0, ruleMask = 0\<rparr>,
               \<lparr>ruleSrc = None, ruleTable = 254, rulePriority = 32766, ruleMark = 0, ruleMask = 0\<rparr>],
     kRoutes = [\<lparr>rtDst = Some \<lparr>netIP = 167772160, netOnes = 24\<rparr>, rtTable = 10000,
                  rtLinkIndex = 2, rtScope = 253, rtGw = None, rtSrc = None, rtType = 1\<rparr>],
     kLinks = [\<lparr>linkName = ''eth0'', linkIndex = 2\<rparr>], kAddrs = [], kFaults = [],
     kLog = [RouteReplaced \<lparr>rtDst = Some \<lparr>netIP = 167772160, netOnes = 24\<rparr>, rtTable = 10000,
                rtLinkIndex = 2, rtScope = 253, rtGw = None, rtSrc = None, rtType = 0\<rparr>]\<rparr>)"
  by code_simp

theorem ensureFromPodSubnetRuleAndRoutes_rule_last_witness:
  "fst (ensureFromPodSubnetRuleAndRoutes 0 ''eth0'' \<lparr>netIP = 167772160, netOnes = 24\<rparr>
          (Some 167772161) False 2 [] [] NetworkModeVlan
          \<lparr>kRules = [\<lparr>ruleSrc = None, ruleTable = 255, rulePriority = 0, ruleMark = 0, ruleMask = 0\<rparr>,
                     \<lparr>ruleSrc = None, ruleTable = 254, rulePriority = 32766, ruleMark = 0, ruleMask = 0\<rparr>],
           kRoutes = [], kLinks = [\<lparr>linkName = ''eth0'', linkIndex = 2\<rparr>], kAddrs = [],
           kFaults = [], kLog = []\<rparr>) = None \<and>
   (\<exists>(k4 :: Kernel) rule.
      kLog (snd (ensureFromPodSubnetRuleAndRoutes 0 ''eth0'' \<lparr>netIP = 167772160, netOnes = 24\<rparr>
          (Some 167772161) False 2 [] [] NetworkModeVlan
          \<lparr>kRules = [\<lparr>ruleSrc = None, ruleTable = 255, rulePriority = 0, ruleMark = 0, ruleMask = 0\<rparr>,
                     \<lparr>ruleSrc = None, ruleTable = 254, rulePriority = 32766, ruleMark = 0, ruleMask = 0\<rparr>],
           kRoutes = [], kLinks = [\<lparr>linkName = ''eth0'', linkIndex = 2\<rparr>], kAddrs = [],
           kFaults = [], kLog = []\<rparr>)) = kLog k4 @ [RuleAdded rule] \<and>
      ruleTable rule = 10000 \<and> length (kLog k4) = 2) \<and>
   fst (ensureFromPodSubnetRuleAndRoutes 0 ''eth0'' \<lparr>netIP = 167772160, netOnes = 24\<rparr>
          (Some 167772161) False 2 [] [] NetworkModeVlan
          \<lparr>kRules = [\<lparr>ruleSrc = None, ruleTable = 255, rulePriority = 0, ruleMark = 0, ruleMask = 0\<rparr>,
                     \<lparr>ruleSrc = None, ruleTable = 254, rulePriority = 32766, ruleMark = 0, ruleMask = 0\<rparr>],
           kRoutes = [], kLinks = [\<lparr>linkName = ''eth0'', linkIndex = 2\<rparr>], kAddrs = [],
           kFaults = [False, False, False, False, False, True], kLog = []\<rparr>) \<noteq> None \<and>
   kRules (snd (ensureFromPodSubnetRuleAndRoutes 0 ''eth0'' \<lparr>netIP = 167772160, netOnes = 24\<rparr>
          (Some 167772161) False 2 [] [] NetworkModeVlan
          \<lparr>kRules = [\<lparr>ruleSrc = None, ruleTable = 255, rulePriority = 0, ruleMark = 0, ruleMask = 0\<rparr>,
                     \<lparr>ruleSrc = None, ruleTable = 254, rulePriority = 32766, ruleMark = 0, ruleMask = 0\<rparr>],
           kRoutes = [], kLinks = [\<lparr>linkName = ''eth0'', linkIndex = 2\<rparr>], kAddrs = [],
           kFaults = [False, False, False, False, False, True], kLog = []\<rparr>)) =
     [\<lparr>ruleSrc = None, ruleTable = 255, rulePriority = 0, ruleMark = 0, ruleMask = 0\<rparr>,
      \<lparr>ruleSrc = None, ruleTable = 254, rulePriority = 32766, ruleMark = 0, ruleMask = 0\<rparr>] \<and>
   length (kRoutes (snd (ensureFromPodSubnetRuleAndRoutes 0 ''eth0'' \<lparr>netIP = 167772160, netOnes = 24\<rparr>
          (Some 167772161) False 2 [] [] NetworkModeVlan
          \<lparr>kRules = [\<lparr>ruleSrc = None, ruleTable = 255, rulePriority = 0, ruleMark = 0, ruleMask = 0\<rparr>,
                     \<lparr>ruleSrc = None, ruleTable = 254, rulePriority = 32766, ruleMark = 0, ruleMask = 0\<rparr>],
           kRoutes = [], kLinks = [\<lparr>linkName = ''eth0'', linkIndex = 2\<rparr>], kAddrs = [],
           kFaults = [False, False, False, False, False, True], kLog = []\<rparr>))) = 1"
proof -
  let ?rs = "[\<lparr>ruleSrc = None, ruleTable = 255, rulePriority = 0, ruleMark = 0, ruleMask = 0\<rparr>,
              \<lparr>ruleSrc = None, ruleTable = 254, rulePriority = 32766, ruleMark = 0, ruleMask = 0\<rparr>]"
  let ?kA = "\<lparr>kRules = ?rs, kRoutes = [], kLinks = [\<lparr>linkName = ''eth0'', linkIndex = 2\<rparr>],
              kAddrs = [], kFaults = [], kLog = []\<rparr>"
  let ?kB = "\<lparr>kRules = ?rs, kRoutes = [], kLinks = [\<lparr>linkName = ''eth0'', linkIndex = 2\<rparr>],
              kAddrs = [], kFaults = [False, False, False, False, False, True], kLog = []\<rparr>"
  let ?f = "ensureFromPodSubnetRuleAndRoutes 0 ''eth0'' \<lparr>netIP = 167772160, netOnes = 24\<rparr>
          (Some 167772161) False 2 [] [] NetworkModeVlan"
  obtain kA' where a: "?f ?kA = (None, kA')" and ra: "kRules kA' \<noteq> ?rs" and la: "length (kLog kA') = 3"
    using rule_last_run_ok by simp
  obtain e kB' where b: "?f ?kB = (Some e, kB')" and rb: "length (kRoutes kB') = 1"
    using rule_last_run_fails by simp
  define K where "K = ?kA"
  have a': "?f K = (None, kA')" using a unfolding K_def .
  have nr: "\<not> routesOnly K kA'" using ra by (simp add: routesOnly_def K_def)
  from ensureFromPodSubnetRuleAndRoutes_rule_last [OF a'] nr
  have "\<exists>(k4 :: Kernel) rule. kLog kA' = kLog k4 @ [RuleAdded rule]"
    by (elim conjE disjE exE) auto
  then obtain k4 :: Kernel and rule where r: "kLog kA' = kLog k4 @ [RuleAdded rule]"
    by blast
  have t: "ruleTable rule = 10000"
  proof -
    have "RuleAdded rule = last (kLog kA')" using r(1) by simp
    then show ?thesis using rule_last_run_ok a by simp
  qed
  have l4: "length (kLog k4) = 2" using r(1) la by simp
  from ensureFromPodSubnetRuleAndRoutes_rule_last [OF b]
  have "routesOnly ?kB kB'" by (elim conjE) simp
  then have rB: "kRules kB' = ?rs" by (simp add: routesOnly_def)
  have c2: "\<exists>(k4 :: Kernel) rule. kLog (snd (?f ?kA)) = kLog k4 @ [RuleAdded rule] \<and>
      ruleTable rule = 10000 \<and> length (kLog k4) = 2"
    using a r(1) t l4 by auto
  show ?thesis using a b c2 rB rb by simp
qed

section \<open>Properties of the address manager\<close>

lemma addrsOnly_iff:
  "addrsOnly P k k' \<longleftrightarrow>
     kRules k' = kRules k \<and> kRoutes k' = kRoutes k \<and> kLinks k' = kLinks k \<and>
     (\<exists>ops. kLog k' = kLog k @ ops \<and>
        (\<forall>op \<in> set ops. case op of AddrAdded a \<Rightarrow> P a | AddrDeleted a \<Rightarrow> True | _ \<Rightarrow> False)) \<and>
     (\<forall>a \<in> set (kAddrs k'). a \<in> set (kAddrs k) \<or> P a)"
  by (auto simp: addrsOnly_def opsSince_def list_all_iff)

lemma addrsOnly_refl: "addrsOnly P k k"
  by (simp add: addrsOnly_iff)

lemma unchanged_addrsOnly: "unchanged k k' \<Longrightarrow> addrsOnly P k k'"
  by (simp add: addrsOnly_iff unchanged_def)

lemma addrsOnly_trans:
  assumes a: "addrsOnly P k k1" and b: "addrsOnly P k1 k2"
  shows "addrsOnly P k k2"
proof -
  let ?ok = "\<lambda>op. case op of AddrAdded a \<Rightarrow> P a | AddrDeleted a \<Rightarrow> True | _ \<Rightarrow> False"
  from a obtain o1 where o1: "kLog k1 = kLog k @ o1" "\<forall>op \<in> set o1. ?ok op"
    unfolding addrsOnly_iff by blast
  from b obtain o2 where o2: "kLog k2 = kLog k1 @ o2" "\<forall>op \<in> set o2. ?ok op"
    unfolding addrsOnly_iff by blast
  have "kLog k2 = kLog k @ (o1 @ o2)" "\<forall>op \<in> set (o1 @ o2). ?ok op"
    using o1 o2 by auto
  then have l: "\<exists>ops. kLog k2 = kLog k @ ops \<and> (\<forall>op \<in> set ops. ?ok op)" by blast
  have ad: "\<forall>x \<in> set (kAddrs k2). x \<in> set (kAddrs k) \<or> P x"
  proof
    fix x assume "x \<in> set (kAddrs k2)"
    then have "x \<in> set (kAddrs k1) \<or> P x" using b unfolding addrsOnly_iff by blast
    then show "x \<in> set (kAddrs k) \<or> P x" using a unfolding addrsOnly_iff by blast
  qed
  show ?thesis using a b l ad unfolding addrsOnly_iff by simp
qed

lemma addrsOnly_mono:
  "addrsOnly P k k' \<Longrightarrow> (\<And>a. P a \<Longrightarrow> Q a) \<Longrightarrow> addrsOnly Q k k'"
  unfolding addrsOnly_iff
  by (elim conjE exE, intro conjI; (assumption | (rule exI, rule conjI, assumption)) ?)
     (auto split: KOp.splits)

lemma LinkList_unchanged: "unchanged k (snd (LinkList k))"
  using takeFault_unchanged [of k] by (simp add: LinkList_def)

lemma AddrList_unchanged: "unchanged k (snd (AddrList l k))"
  using takeFault_unchanged [of k] by (simp add: AddrList_def)

lemma AddrDel_addrsOnly: "addrsOnly P k (snd (AddrDel l a k))"
  using takeFault_unchanged [of k] by (auto simp: AddrDel_def addrsOnly_iff unchanged_def)

lemma AddrAdd_addrsOnly:
  assumes "\<And>ip. newIP a = Some ip \<Longrightarrow>
     P \<lparr>addrIP = ip, addrOnes = newOnes a, addrFlags = newFlags a, addrScope = newScope a,
        addrLinkIndex = linkIndex l\<rparr>"
  shows "addrsOnly P k (snd (AddrAdd l a k))"
  using takeFault_unchanged [of k] assms
  by (auto simp: AddrAdd_def addrsOnly_iff unchanged_def split: option.splits)

lemma ensureSubnetEnhancedAddr_addrsOnly:
  assumes "\<And>ip. newIP a = Some ip \<Longrightarrow>
     P \<lparr>addrIP = ip, addrOnes = newOnes a, addrFlags = newFlags a, addrScope = newScope a,
        addrLinkIndex = linkIndex l\<rparr>"
  shows "addrsOnly P k (snd (ensureSubnetEnhancedAddr l a old fam k))"
proof -
  obtain x k1 where ad: "AddrAdd l a k = (x, k1)" by (cases "AddrAdd l a k")
  have u1: "addrsOnly P k k1" using AddrAdd_addrsOnly [of a P l k] assms ad by simp
  show ?thesis
  proof (cases x)
    case (Some e)
    then show ?thesis using ad u1 by (simp add: ensureSubnetEnhancedAddr_def)
  next
    case None
    show ?thesis
    proof (cases old)
      case n: None
      then show ?thesis using ad None u1 by (simp add: ensureSubnetEnhancedAddr_def)
    next
      case (Some od)
      obtain y k2 where d: "AddrDel l od k1 = (y, k2)" by (cases "AddrDel l od k1")
      have "addrsOnly P k k2" using addrsOnly_trans [OF u1 AddrDel_addrsOnly [of P k1 l od]] d by simp
      then show ?thesis using ad None Some d by (cases y) (simp_all add: ensureSubnetEnhancedAddr_def)
    qed
  qed
qed

lemma scanLinks_unchanged: "unchanged k (snd (scanLinks c e bits ls maps k))"
proof (induction ls arbitrary: maps k)
  case Nil
  show ?case by (simp add: unchanged_refl)
next
  case (Cons l ls)
  obtain en ma lm where maps: "maps = (en, ma, lm)" by (cases maps)
  show ?case
  proof (cases "c (linkName l)")
    case True
    then show ?thesis using Cons [of k maps] maps by simp
  next
    case False
    obtain x k1 where al: "AddrList l k = (x, k1)" by (cases "AddrList l k")
    have u1: "unchanged k k1" using AddrList_unchanged [of k l] al by simp
    show ?thesis
    proof (cases x)
      case (Inl err)
      then show ?thesis using False maps al u1 by simp
    next
      case (Inr as)
      show ?thesis
      proof (cases "classifyAddrs e bits k1 l as (en, ma)")
        case (Inl err)
        then show ?thesis using False maps al Inr u1 by simp
      next
        case r: (Inr p)
        obtain en' ma' where p: "p = (en', ma')" by (cases p)
        have "unchanged k1 (snd (scanLinks c e bits ls (en', ma', AList.update (linkName l) l lm) k1))"
          by (rule Cons)
        with u1 have "unchanged k (snd (scanLinks c e bits ls (en', ma', AList.update (linkName l) l lm) k1))"
          by (rule unchanged_trans)
        then show ?thesis using False maps al Inr r p by simp
      qed
    qed
  qed
qed

lemma deleteAddrs_addrsOnly: "addrsOnly P k (snd (deleteAddrs msg l tm es k))"
proof (induction es arbitrary: k)
  case Nil
  show ?case by (simp add: addrsOnly_refl)
next
  case (Cons e es)
  obtain s a where e: "e = (s, a)" by (cases e)
  show ?case
  proof (cases "case tm of None \<Rightarrow> True | Some target \<Rightarrow> map_of target s = None")
    case False
    then show ?thesis using Cons [of k] e by simp
  next
    case True
    show ?thesis
    proof (cases l)
      case None
      then show ?thesis using True e by (simp add: addrsOnly_refl)
    next
      case (Some ll)
      obtain y k1 where d: "AddrDel ll a k = (y, k1)" by (cases "AddrDel ll a k")
      have u1: "addrsOnly P k k1" using AddrDel_addrsOnly [of P k ll a] d by simp
      show ?thesis
      proof (cases y)
        case (Some err)
        then show ?thesis using True e \<open>l = Some ll\<close> d u1 by simp
      next
        case None
        have "addrsOnly P k (snd (deleteAddrs msg l tm es k1))"
          using addrsOnly_trans [OF u1 Cons [of k1]] .
        then show ?thesis using True e \<open>l = Some ll\<close> d None by simp
      qed
    qed
  qed
qed

lemma clearEnhancedAddrs_addrsOnly: "addrsOnly P k (snd (clearEnhancedAddrs ts lm en k))"
proof (induction en arbitrary: k)
  case Nil
  show ?case by (simp add: addrsOnly_refl)
next
  case (Cons e en)
  obtain n sm where e: "e = (n, sm)" by (cases e)
  let ?msg = "if map_of ts n = None then ''delete link enhanced addr failed''
              else ''delete link subnet enhanced addr failed''"
  obtain y k1 where d: "deleteAddrs ?msg (map_of lm n) (map_of ts n) sm k = (y, k1)"
    by (cases "deleteAddrs ?msg (map_of lm n) (map_of ts n) sm k")
  have u1: "addrsOnly P k k1"
    using deleteAddrs_addrsOnly [of P k ?msg "map_of lm n" "map_of ts n" sm] d by simp
  show ?case
  proof (cases y)
    case (Some err)
    then show ?thesis using e d u1 by simp
  next
    case None
    have "addrsOnly P k (snd (clearEnhancedAddrs ts lm en k1))"
      using addrsOnly_trans [OF u1 Cons [of k1]] .
    then show ?thesis using e d None by simp
  qed
qed

lemma ensureSubnetAddrs_addrsOnly:
  assumes "\<And>n ip. (Some n, Some ip) \<in> set sm \<Longrightarrow>
     P \<lparr>addrIP = ip, addrOnes = netOnes n, addrFlags = IFA_F_NOPREFIXROUTE,
        addrScope = RT_SCOPE_LINK, addrLinkIndex = linkIndex l\<rparr>"
  shows "addrsOnly P k (snd (ensureSubnetAddrs g ln fam en ma name l sm k))"
  using assms
proof (induction sm arbitrary: k)
  case Nil
  show ?case by (simp add: addrsOnly_refl)
next
  case (Cons e sm)
  obtain s podIP where e: "e = (s, podIP)" by (cases e)
  have IH: "addrsOnly P k' (snd (ensureSubnetAddrs g ln fam en ma name l sm k'))" for k'
    by (rule Cons.IH) (simp add: Cons.prems)
  show ?case
  proof (cases "case map_of ma name of None \<Rightarrow> False | Some subnetMap \<Rightarrow> map_of subnetMap s \<noteq> None")
    case True
    then show ?thesis using IH [of k] e by simp
  next
    case False
    show ?thesis
    proof (cases "checkExistEnhancedAddr g ln en name s podIP")
      case (Inl err)
      then show ?thesis using False e by (simp add: addrsOnly_refl)
    next
      case (Inr r)
      show ?thesis
      proof (cases r)
        case Keep
        then show ?thesis using False e Inr IH [of k] by simp
      next
        case (Install old)
        show ?thesis
        proof (cases s)
          case None
          then show ?thesis using False e Inr Install
            by (simp add: addrsOnly_refl cong: option.case_cong)
        next
          case (Some n)
          let ?a = "\<lparr>newIP = podIP, newOnes = netOnes n, newLabel = [],
                     newFlags = IFA_F_NOPREFIXROUTE, newScope = RT_SCOPE_LINK\<rparr>"
          obtain y k1 where en: "ensureSubnetEnhancedAddr l ?a old fam k = (y, k1)"
            by (cases "ensureSubnetEnhancedAddr l ?a old fam k")
          have "addrsOnly P k (snd (ensureSubnetEnhancedAddr l ?a old fam k))"
          proof (rule ensureSubnetEnhancedAddr_addrsOnly)
            fix ip assume "newIP ?a = Some ip"
            then have "(Some n, Some ip) \<in> set (e # sm)" using e Some by simp
            from Cons.prems [OF this]
            show "P \<lparr>addrIP = ip, addrOnes = newOnes ?a, addrFlags = newFlags ?a,
                     addrScope = newScope ?a, addrLinkIndex = linkIndex l\<rparr>" by simp
          qed
          then have u1: "addrsOnly P k k1" using en by simp
          show ?thesis
          proof (cases y)
            case (Some err)
            then show ?thesis using False e Inr Install \<open>s = Some n\<close> en u1
              by (simp cong: option.case_cong)
          next
            case None
            have "addrsOnly P k (snd (ensureSubnetAddrs g ln fam en ma name l sm k1))"
              using addrsOnly_trans [OF u1 IH [of k1]] .
            then show ?thesis using False e Inr Install \<open>s = Some n\<close> en None
              by (simp cong: option.case_cong)
          qed
        qed
      qed
    qed
  qed
qed

lemma ensureEnhancedAddrs_addrsOnly:
  assumes "\<And>name sm n ip (l :: Link). (name, sm) \<in> set ts \<Longrightarrow> (Some n, Some ip) \<in> set sm \<Longrightarrow>
     P \<lparr>addrIP = ip, addrOnes = netOnes n, addrFlags = IFA_F_NOPREFIXROUTE,
        addrScope = RT_SCOPE_LINK, addrLinkIndex = linkIndex l\<rparr>"
  shows "addrsOnly P k (snd (ensureEnhancedAddrs g ln fam en ma ts k))"
  using assms
proof (induction ts arbitrary: k)
  case Nil
  show ?case by (simp add: addrsOnly_refl)
next
  case (Cons e ts)
  obtain name sm where e: "e = (name, sm)" by (cases e)
  have IH: "addrsOnly P k' (snd (ensureEnhancedAddrs g ln fam en ma ts k'))" for k'
  proof (rule Cons.IH)
    fix name sm n ip and l :: Link
    assume "(name, sm) \<in> set ts" "(Some n, Some ip) \<in> set sm"
    then show "P \<lparr>addrIP = ip, addrOnes = netOnes n, addrFlags = IFA_F_NOPREFIXROUTE,
        addrScope = RT_SCOPE_LINK, addrLinkIndex = linkIndex l\<rparr>"
      using Cons.prems [of name sm n ip l] by simp
  qed
  obtain x k1 where lb: "LinkByName name k = (x, k1)" by (cases "LinkByName name k")
  have u1: "addrsOnly P k k1"
    using LinkByName_unchanged [of k name] lb by (simp add: unchanged_addrsOnly)
  show ?case
  proof (cases x)
    case (Inl err)
    then show ?thesis using e lb u1 by simp
  next
    case (Inr l)
    obtain y k2 where es: "ensureSubnetAddrs g ln fam en ma name l sm k1 = (y, k2)"
      by (cases "ensureSubnetAddrs g ln fam en ma name l sm k1")
    have "addrsOnly P k1 (snd (ensureSubnetAddrs g ln fam en ma name l sm k1))"
    proof (rule ensureSubnetAddrs_addrsOnly)
      fix n ip assume "(Some n, Some ip) \<in> set sm"
      then show "P \<lparr>addrIP = ip, addrOnes = netOnes n, addrFlags = IFA_F_NOPREFIXROUTE,
        addrScope = RT_SCOPE_LINK, addrLinkIndex = linkIndex l\<rparr>"
        using Cons.prems [of name sm n ip l] e by simp
    qed
    then have u2: "addrsOnly P k k2" using addrsOnly_trans [OF u1] es by simp
    show ?thesis
    proof (cases y)
      case (Some err)
      then show ?thesis using e lb Inr es u2 by simp
    next
      case None
      have "addrsOnly P k (snd (ensureEnhancedAddrs g ln fam en ma ts k2))"
        using addrsOnly_trans [OF u2 IH [of k2]] .
      then show ?thesis using e lb Inr es None by simp
    qed
  qed
qed

lemma SyncAddresses_addrsOnly:
  assumes "\<And>name sm n ip (l :: Link). (name, sm) \<in> set (interfaceToSubnetMap m) \<Longrightarrow>
     (Some n, Some ip) \<in> set sm \<Longrightarrow>
     P \<lparr>addrIP = ip, addrOnes = netOnes n, addrFlags = IFA_F_NOPREFIXROUTE,
        addrScope = RT_SCOPE_LINK, addrLinkIndex = linkIndex l\<rparr>"
  shows "addrsOnly P k (snd (SyncAddresses c e g m k))"
proof -
  obtain x k1 where ll: "LinkList k = (x, k1)" by (cases "LinkList k")
  have u1: "addrsOnly P k k1" using LinkList_unchanged [of k] ll by (simp add: unchanged_addrsOnly)
  show ?thesis
  proof (cases x)
    case (Inl err)
    then show ?thesis using ll u1 by (simp add: SyncAddresses_def)
  next
    case (Inr ls)
    obtain y k2 where sc: "scanLinks c e (familyBits (managerFamily m)) ls ([], [], []) k1 = (y, k2)"
      by (cases "scanLinks c e (familyBits (managerFamily m)) ls ([], [], []) k1")
    have "unchanged k1 k2"
      using scanLinks_unchanged [of k1 c e "familyBits (managerFamily m)" ls "([], [], [])"] sc by simp
    then have u2: "addrsOnly P k k2" using addrsOnly_trans [OF u1 unchanged_addrsOnly] by simp
    show ?thesis
    proof (cases y)
      case (Inl err)
      then show ?thesis using ll Inr sc u2 by (simp add: SyncAddresses_def)
    next
      case r: (Inr maps)
      obtain en ma lm where maps: "maps = (en, ma, lm)" by (cases maps)
      obtain z k3 where cl: "clearEnhancedAddrs (interfaceToSubnetMap m) lm en k2 = (z, k3)"
        by (cases "clearEnhancedAddrs (interfaceToSubnetMap m) lm en k2")
      have u3: "addrsOnly P k k3"
        using addrsOnly_trans [OF u2 clearEnhancedAddrs_addrsOnly [of P k2 "interfaceToSubnetMap m" lm en]] cl
        by simp
      show ?thesis
      proof (cases z)
        case (Some err)
        then show ?thesis using ll Inr sc r maps cl u3 by (simp add: SyncAddresses_def)
      next
        case None
        have "addrsOnly P k3 (snd (ensureEnhancedAddrs g (localNodeName m) (managerFamily m) en ma
            (interfaceToSubnetMap m) k3))"
          by (rule ensureEnhancedAddrs_addrsOnly) (rule assms)
        then have "addrsOnly P k (snd (ensureEnhancedAddrs g (localNodeName m) (managerFamily m) en ma
            (interfaceToSubnetMap m) k3))"
          using addrsOnly_trans [OF u3] by simp
        then show ?thesis using ll Inr sc r maps cl None by (simp add: SyncAddresses_def)
      qed
    qed
  qed
qed

text \<open>
  C9. In every execution of \<open>SyncAddresses\<close>, whatever the kernel makes fail and whatever
  the two absent predicates and the lookup return: every address that the call adds has
  the scope \<open>RT_SCOPE_LINK\<close> and the flags \<open>IFA_F_NOPREFIXROUTE\<close>, and is the pod address of
  a tracked interface and subnet with the mask of that subnet; every address of the
  kernel after the call was there before or has that scope and that flag; and the call
  changes the kernel by adding and deleting addresses only.
\<close>

theorem SyncAddresses_enhanced_marking:
  "SyncAddresses CheckIfContainerNetworkLink checkIfEnhancedAddr getIPInstanceByAddress m k = (res, k') \<Longrightarrow>
   kLog k' = kLog k @ opsSince k k' \<and>
   (\<forall>a. AddrAdded a \<in> set (opsSince k k') \<longrightarrow>
      addrScope a = RT_SCOPE_LINK \<and> addrFlags a = IFA_F_NOPREFIXROUTE \<and>
      addrFlags a AND IFA_F_NOPREFIXROUTE \<noteq> 0 \<and>
      (\<exists>forwardNodeIfName targetSubnetMap subnet.
          (forwardNodeIfName, targetSubnetMap) \<in> set (interfaceToSubnetMap m) \<and>
          (Some subnet, Some (addrIP a)) \<in> set targetSubnetMap \<and>
          addrOnes a = netOnes subnet)) \<and>
   (\<forall>a \<in> set (kAddrs k'). a \<in> set (kAddrs k) \<or>
      addrScope a = RT_SCOPE_LINK \<and> addrFlags a = IFA_F_NOPREFIXROUTE) \<and>
   (\<forall>op \<in> set (opsSince k k'). (\<exists>a. op = AddrAdded a) \<or> (\<exists>a. op = AddrDeleted a))"
proof -
  assume run: "SyncAddresses CheckIfContainerNetworkLink checkIfEnhancedAddr getIPInstanceByAddress m k = (res, k')"
  define P :: "Addr \<Rightarrow> bool" where "P = (\<lambda>a. addrScope a = RT_SCOPE_LINK \<and> addrFlags a = IFA_F_NOPREFIXROUTE \<and>
      (\<exists>forwardNodeIfName targetSubnetMap subnet.
          (forwardNodeIfName, targetSubnetMap) \<in> set (interfaceToSubnetMap m) \<and>
          (Some subnet, Some (addrIP a)) \<in> set targetSubnetMap \<and>
          addrOnes a = netOnes subnet))"
  have "addrsOnly P k (snd (SyncAddresses CheckIfContainerNetworkLink checkIfEnhancedAddr
      getIPInstanceByAddress m k))"
  proof (rule SyncAddresses_addrsOnly)
    fix name sm n ip and l :: Link
    assume "(name, sm) \<in> set (interfaceToSubnetMap m)" "(Some n, Some ip) \<in> set sm"
    then show "P \<lparr>addrIP = ip, addrOnes = netOnes n, addrFlags = IFA_F_NOPREFIXROUTE,
        addrScope = RT_SCOPE_LINK, addrLinkIndex = linkIndex l\<rparr>"
      unfolding P_def by auto
  qed
  then have ao: "addrsOnly P k k'" using run by simp
  have nz: "IFA_F_NOPREFIXROUTE AND IFA_F_NOPREFIXROUTE \<noteq> (0::int)"
    by (simp add: IFA_F_NOPREFIXROUTE_def)
  have l: "kLog k' = kLog k @ opsSince k k'" using ao by (simp add: addrsOnly_def)
  have ops: "\<forall>op \<in> set (opsSince k k').
      case op of AddrAdded a \<Rightarrow> P a | AddrDeleted a \<Rightarrow> True | _ \<Rightarrow> False"
    using ao by (simp add: addrsOnly_def list_all_iff)
  have c2: "\<forall>a. AddrAdded a \<in> set (opsSince k k') \<longrightarrow>
      addrScope a = RT_SCOPE_LINK \<and> addrFlags a = IFA_F_NOPREFIXROUTE \<and>
      addrFlags a AND IFA_F_NOPREFIXROUTE \<noteq> 0 \<and>
      (\<exists>forwardNodeIfName targetSubnetMap subnet.
          (forwardNodeIfName, targetSubnetMap) \<in> set (interfaceToSubnetMap m) \<and>
          (Some subnet, Some (addrIP a)) \<in> set targetSubnetMap \<and>
          addrOnes a = netOnes subnet)"
  proof (intro allI impI)
    fix a assume "AddrAdded a \<in> set (opsSince k k')"
    with ops have "P a" by force
    then show "addrScope a = RT_SCOPE_LINK \<and> addrFlags a = IFA_F_NOPREFIXROUTE \<and>
      addrFlags a AND IFA_F_NOPREFIXROUTE \<noteq> 0 \<and>
      (\<exists>forwardNodeIfName targetSubnetMap subnet.
          (forwardNodeIfName, targetSubnetMap) \<in> set (interfaceToSubnetMap m) \<and>
          (Some subnet, Some (addrIP a)) \<in> set targetSubnetMap \<and>
          addrOnes a = netOnes subnet)"
      using nz unfolding P_def by simp
  qed
  have c3: "\<forall>a \<in> set (kAddrs k'). a \<in> set (kAddrs k) \<or>
      addrScope a = RT_SCOPE_LINK \<and> addrFlags a = IFA_F_NOPREFIXROUTE"
    using ao unfolding addrsOnly_def list_all_iff P_def by blast
  have c4: "\<forall>op \<in> set (opsSince k k'). (\<exists>a. op = AddrAdded a) \<or> (\<exists>a. op = AddrDeleted a)"
  proof
    fix op assume "op \<in> set (opsSince k k')"
    with ops have "case op of AddrAdded a \<Rightarrow> P a | AddrDeleted a \<Rightarrow> True | _ \<Rightarrow> False" by blast
    then show "(\<exists>a. op = AddrAdded a) \<or> (\<exists>a. op = AddrDeleted a)" by (cases op) simp_all
  qed
  show ?thesis using l c2 c3 c4 by blast
qed

lemma sync_run:
  "SyncAddresses (\<lambda>name. take 4 name = ''veth'') (\<lambda>k link addr. Inr (addrFlags addr AND 512 \<noteq> 0))
     (\<lambda>ip. Inr None)
     (TryAddPodInfo ''eth0.10'' (Some \<lparr>netIP = 167772160, netOnes = 24\<rparr>) (Some 167772170)
       (TryAddPodInfo ''eth0'' (Some \<lparr>netIP = 167903232, netOnes = 24\<rparr>) (Some 167903242)
         (CreateAddrManager 2 ''node1'')))
     \<lparr>kRules = [], kRoutes = [],
      kLinks = [\<lparr>linkName = ''eth0'', linkIndex = 2\<rparr>, \<lparr>linkName = ''eth0.10'', linkIndex = 3\<rparr>,
                \<lparr>linkName = ''veth1'', linkIndex = 7\<rparr>],
      kAddrs = [\<lparr>addrIP = 3232235786, addrOnes = 24, addrFlags = 128, addrScope = 0, addrLinkIndex = 2\<rparr>,
                \<lparr>addrIP = 167772165, addrOnes = 24, addrFlags = 512, addrScope = 253, addrLinkIndex = 3\<rparr>,
                \<lparr>addrIP = 167837701, addrOnes = 24, addrFlags = 512, addrScope = 253, addrLinkIndex = 3\<rparr>],
      kFaults = [], kLog = []\<rparr> =
   (None,
    \<lparr>kRules = [], kRoutes = [],
     kLinks = [\<lparr>linkName = ''eth0'', linkIndex = 2\<rparr>, \<lparr>linkName = ''eth0.10'', linkIndex = 3\<rparr>,
               \<lparr>linkName = ''veth1'', linkIndex = 7\<rparr>],
     kAddrs = [\<lparr>addrIP = 3232235786, addrOnes = 24, addrFlags = 128, addrScope = 0, addrLinkIndex = 2\<rparr>,
               \<lparr>addrIP = 167903242, addrOnes = 24, addrFlags = 512, addrScope = 253, addrLinkIndex = 2\<rparr>,
               \<lparr>addrIP = 167772170, addrOnes = 24, addrFlags = 512, addrScope = 253, addrLinkIndex = 3\<rparr>],
     kFaults = [],
     kLog = [AddrDeleted \<lparr>addrIP = 167837701, addrOnes = 24, addrFlags = 512, addrScope = 253,
                addrLinkIndex = 3\<rparr>,
             AddrAdded \<lparr>addrIP = 167903242, addrOnes = 24, addrFlags = 512, addrScope = 253,
                addrLinkIndex = 2\<rparr>,
             AddrAdded \<lparr>addrIP = 167772170, addrOnes = 24, addrFlags = 512, addrScope = 253,
                addrLinkIndex = 3\<rparr>,
             AddrDeleted \<lparr>addrIP = 167772165, addrOnes = 24, addrFlags = 512, addrScope = 253,
                addrLinkIndex = 3\<rparr>]\<rparr>)"
  by code_simp

theorem SyncAddresses_enhanced_marking_witness:
  "fst (SyncAddresses (\<lambda>name. take 4 name = ''veth'') (\<lambda>k link addr. Inr (addrFlags addr AND 512 \<noteq> 0))
     (\<lambda>ip. Inr None)
     (TryAddPodInfo ''eth0.10'' (Some \<lparr>netIP = 167772160, netOnes = 24\<rparr>) (Some 167772170)
       (TryAddPodInfo ''eth0'' (Some \<lparr>netIP = 167903232, netOnes = 24\<rparr>) (Some 167903242)
         (CreateAddrManager 2 ''node1'')))
     \<lparr>kRules = [], kRoutes = [],
      kLinks = [\<lparr>linkName = ''eth0'', linkIndex = 2\<rparr>, \<lparr>linkName = ''eth0.10'', linkIndex = 3\<rparr>,
                \<lparr>linkName = ''veth1'', linkIndex = 7\<rparr>],
      kAddrs = [\<lparr>addrIP = 3232235786, addrOnes = 24, addrFlags = 128, addrScope = 0, addrLinkIndex = 2\<rparr>,
                \<lparr>addrIP = 167772165, addrOnes = 24, addrFlags = 512, addrScope = 253, addrLinkIndex = 3\<rparr>,
                \<lparr>addrIP = 167837701, addrOnes = 24, addrFlags = 512, addrScope = 253, addrLinkIndex = 3\<rparr>],
      kFaults = [], kLog = []\<rparr>) = None \<and>
   kLog (snd (SyncAddresses (\<lambda>name. take 4 name = ''veth'') (\<lambda>k link addr. Inr (addrFlags addr AND 512 \<noteq> 0))
     (\<lambda>ip. Inr None)
     (TryAddPodInfo ''eth0.10'' (Some \<lparr>netIP = 167772160, netOnes = 24\<rparr>) (Some 167772170)
       (TryAddPodInfo ''eth0'' (Some \<lparr>netIP = 167903232, netOnes = 24\<rparr>) (Some 167903242)
         (CreateAddrManager 2 ''node1'')))
     \<lparr>kRules = [], kRoutes = [],
      kLinks = [\<lparr>linkName = ''eth0'', linkIndex = 2\<rparr>, \<lparr>linkName = ''eth0.10'', linkIndex = 3\<rparr>,
                \<lparr>linkName = ''veth1'', linkIndex = 7\<rparr>],
      kAddrs = [\<lparr>addrIP = 3232235786, addrOnes = 24, addrFlags = 128, addrScope = 0, addrLinkIndex = 2\<rparr>,
                \<lparr>addrIP = 167772165, addrOnes = 24, addrFlags = 512, addrScope = 253, addrLinkIndex = 3\<rparr>,
                \<lparr>addrIP = 167837701, addrOnes = 24, addrFlags = 512, addrScope = 253, addrLinkIndex = 3\<rparr>],
      kFaults = [], kLog = []\<rparr>)) =
     [AddrDeleted \<lparr>addrIP = 167837701, addrOnes = 24, addrFlags = 512, addrScope = 253, addrLinkIndex = 3\<rparr>,
      AddrAdded \<lparr>addrIP = 167903242, addrOnes = 24, addrFlags = 512, addrScope = 253, addrLinkIndex = 2\<rparr>,
      AddrAdded \<lparr>addrIP = 167772170, addrOnes = 24, addrFlags = 512, addrScope = 253, addrLinkIndex = 3\<rparr>,
      AddrDeleted \<lparr>addrIP = 167772165, addrOnes = 24, addrFlags = 512, addrScope = 253, addrLinkIndex = 3\<rparr>] \<and>
   addrScope \<lparr>addrIP = 167772170, addrOnes = 24, addrFlags = 512, addrScope = 253, addrLinkIndex = 3\<rparr> =
     RT_SCOPE_LINK \<and>
   addrFlags \<lparr>addrIP = 167772170, addrOnes = 24, addrFlags = 512, addrScope = 253, addrLinkIndex = 3\<rparr>
     AND IFA_F_NOPREFIXROUTE \<noteq> 0"
proof -
  let ?a = "\<lparr>addrIP = 167772170, addrOnes = 24, addrFlags = 512, addrScope = 253, addrLinkIndex = 3\<rparr>"
  let ?k = "\<lparr>kRules = [], kRoutes = [],
      kLinks = [\<lparr>linkName = ''eth0'', linkIndex = 2\<rparr>, \<lparr>linkName = ''eth0.10'', linkIndex = 3\<rparr>,
                \<lparr>linkName = ''veth1'', linkIndex = 7\<rparr>],
      kAddrs = [\<lparr>addrIP = 3232235786, addrOnes = 24, addrFlags = 128, addrScope = 0, addrLinkIndex = 2\<rparr>,
                \<lparr>addrIP = 167772165, addrOnes = 24, addrFlags = 512, addrScope = 253, addrLinkIndex = 3\<rparr>,
                \<lparr>addrIP = 167837701, addrOnes = 24, addrFlags = 512, addrScope = 253, addrLinkIndex = 3\<rparr>],
      kFaults = [], kLog = []\<rparr>"
  let ?run = "SyncAddresses (\<lambda>name. take 4 name = ''veth'') (\<lambda>k link addr. Inr (addrFlags addr AND 512 \<noteq> 0))
     (\<lambda>ip. Inr None)
     (TryAddPodInfo ''eth0.10'' (Some \<lparr>netIP = 167772160, netOnes = 24\<rparr>) (Some 167772170)
       (TryAddPodInfo ''eth0'' (Some \<lparr>netIP = 167903232, netOnes = 24\<rparr>) (Some 167903242)
         (CreateAddrManager 2 ''node1''))) ?k"
  obtain k' where run: "?run = (None, k')"
    and log: "kLog k' =
     [AddrDeleted \<lparr>addrIP = 167837701, addrOnes = 24, addrFlags = 512, addrScope = 253, addrLinkIndex = 3\<rparr>,
      AddrAdded \<lparr>addrIP = 167903242, addrOnes = 24, addrFlags = 512, addrScope = 253, addrLinkIndex = 2\<rparr>,
      AddrAdded ?a,
      AddrDeleted \<lparr>addrIP = 167772165, addrOnes = 24, addrFlags = 512, addrScope = 253, addrLinkIndex = 3\<rparr>]"
    using sync_run by simp
  have mem: "AddrAdded ?a \<in> set (opsSince ?k k')" by (simp add: opsSince_def log)
  from SyncAddresses_enhanced_marking [OF run]
  have "\<forall>a. AddrAdded a \<in> set (opsSince ?k k') \<longrightarrow>
      addrScope a = RT_SCOPE_LINK \<and> addrFlags a = IFA_F_NOPREFIXROUTE \<and>
      addrFlags a AND IFA_F_NOPREFIXROUTE \<noteq> 0 \<and>
      (\<exists>forwardNodeIfName targetSubnetMap subnet.
          (forwardNodeIfName, targetSubnetMap) \<in> set (interfaceToSubnetMap
            (TryAddPodInfo ''eth0.10'' (Some \<lparr>netIP = 167772160, netOnes = 24\<rparr>) (Some 167772170)
              (TryAddPodInfo ''eth0'' (Some \<lparr>netIP = 167903232, netOnes = 24\<rparr>) (Some 167903242)
                (CreateAddrManager 2 ''node1'')))) \<and>
          (Some subnet, Some (addrIP a)) \<in> set targetSubnetMap \<and>
          addrOnes a = netOnes subnet)"
    by (elim conjE)
  with mem have m: "addrScope ?a = RT_SCOPE_LINK \<and> addrFlags ?a AND IFA_F_NOPREFIXROUTE \<noteq> 0"
    by blast
  show ?thesis using run log m by simp
qed

end
